theory Spec2Isabelle
  imports Main
begin

section \<open>Key codes and events\<close>

text \<open>
  The module-level key codes of \<^verbatim>\<open>sailor.py\<close> (lines 12-16), and the codes it reads from
  the curses library. The library is not part of the repository; its constants are
  given their ncurses values (\<^verbatim>\<open>curses.KEY_DOWN = 0o402\<close> and so on,
  \<^verbatim>\<open>curses.ascii.DEL = 0x7f\<close>).
\<close>

definition CTRL_A :: int where "CTRL_A = 1"
definition CTRL_E :: int where "CTRL_E = 5"
definition ALT_BS :: int where "ALT_BS = 127"
definition ALT_ENTER :: int where "ALT_ENTER = 10"
definition SHIFT_TAB :: int where "SHIFT_TAB = 353"

definition KEY_DOWN :: int where "KEY_DOWN = 258"
definition KEY_UP :: int where "KEY_UP = 259"
definition KEY_LEFT :: int where "KEY_LEFT = 260"
definition KEY_RIGHT :: int where "KEY_RIGHT = 261"
definition KEY_BACKSPACE :: int where "KEY_BACKSPACE = 263"
definition KEY_ENTER :: int where "KEY_ENTER = 343"
definition ascii_TAB :: int where "ascii_TAB = 9"
definition ascii_ESC :: int where "ascii_ESC = 27"
definition ascii_DEL :: int where "ascii_DEL = 127"

lemmas key_defs =
  CTRL_A_def CTRL_E_def ALT_BS_def ALT_ENTER_def SHIFT_TAB_def KEY_DOWN_def KEY_UP_def
  KEY_LEFT_def KEY_RIGHT_def KEY_BACKSPACE_def KEY_ENTER_def ascii_TAB_def ascii_ESC_def
  ascii_DEL_def

text \<open>
  Objects are compared by identity in the source (\<^verbatim>\<open>child is ctrl\<close>,
  \<^verbatim>\<open>ctrl in set\<close> on classes without \<^verbatim>\<open>__eq__\<close>). Every object of the model carries
  the identity it was created with: the one App, a Layer, or a Control.
\<close>

datatype ident = AppId | LayerId nat | CtrlId nat

text \<open>
  class Event (lines 219-230). \<^verbatim>\<open>type\<close> is one of the strings \<^verbatim>\<open>'key'\<close>,
  \<^verbatim>\<open>'blur'\<close>, \<^verbatim>\<open>'focus'\<close>; \<^verbatim>\<open>key\<close> and \<^verbatim>\<open>what\<close> both start as the constructor's
  \<^verbatim>\<open>what\<close> argument, an integer key code or \<^verbatim>\<open>None\<close>. The \<^verbatim>\<open>app\<close> field is the
  App that runs the dispatch and is passed alongside the event in the model. The field
  \<^verbatim>\<open>last\<close> is \<open>ev_last\<close> here.
\<close>

datatype event_type = KeyEvent | BlurEvent | FocusEvent

record event =
  ev_type :: event_type
  key :: "int option"
  what :: "int option"
  target :: "ident option"
  ev_last :: "ident option"
  propagating :: bool

definition Event :: "event_type \<Rightarrow> int option \<Rightarrow> ident option \<Rightarrow> event" where
  "Event ty wh tgt =
     \<lparr>ev_type = ty, key = wh, what = wh, target = tgt, ev_last = None, propagating = True\<rparr>"

definition stop :: "event \<Rightarrow> event" where
  "stop ev = ev\<lparr>propagating := False\<rparr>"

definition is_enter :: "event \<Rightarrow> bool" where
  "is_enter ev = (key ev \<in> set [Some KEY_ENTER, Some ALT_ENTER])"

datatype error = TypeError | AttributeError | IndexError | ValueError | OverflowError | Unmodelled

section \<open>Python slices\<close>

text \<open>
  \<^verbatim>\<open>s[:i]\<close> and \<^verbatim>\<open>s[i:]\<close>: a negative bound counts from the end, and a bound outside
  the sequence is clipped to it.
\<close>

definition slice_to :: "'a list \<Rightarrow> int \<Rightarrow> 'a list" where
  "slice_to s i = take (nat (if i < 0 then i + int (length s) else i)) s"

definition slice_from :: "'a list \<Rightarrow> int \<Rightarrow> 'a list" where
  "slice_from s i = drop (nat (if i < 0 then i + int (length s) else i)) s"

section \<open>Edit\<close>

text \<open>
  class Edit (lines 520-563): the text \<^verbatim>\<open>value\<close> and the \<^verbatim>\<open>cursor\<close>, an offset into it.
  The constructor puts the cursor at the end.
\<close>

record edit =
  edit_value :: string
  edit_cursor :: int

definition Edit_init :: "string \<Rightarrow> edit" where
  "Edit_init v = \<lparr>edit_value = v, edit_cursor = int (length v)\<rparr>"

text \<open>
  \<^verbatim>\<open>Edit.on_event\<close> (lines 537-563) is a sequence of independent \<^verbatim>\<open>if\<close> statements, not
  an \<^verbatim>\<open>elif\<close> chain: each test reads the state the earlier ones left. The last test,
  \<^verbatim>\<open>32 <= ev.key < 127\<close>, raises TypeError on a key that is \<^verbatim>\<open>None\<close>; no earlier test
  matches such a key. \<^verbatim>\<open>chr(ev.key)\<close> is the character with that code.
\<close>

definition edit_on_event :: "edit \<Rightarrow> event \<Rightarrow> error + edit \<times> event" where
  "edit_on_event self0 ev0 =
    (if ev_type ev0 \<noteq> KeyEvent then Inr (self0, ev0) else
     let (self, ev) = (self0, ev0);
         (self, ev) = (if key ev = Some CTRL_A
                       then (self\<lparr>edit_cursor := 0\<rparr>, stop ev) else (self, ev));
         (self, ev) = (if key ev = Some CTRL_E
                       then (self\<lparr>edit_cursor := int (length (edit_value self))\<rparr>, stop ev)
                       else (self, ev));
         (self, ev) = (if key ev \<in> set [Some KEY_BACKSPACE, Some ALT_BS]
                       then (self\<lparr>edit_value := slice_to (edit_value self) (edit_cursor self)
                                                  @ slice_from (edit_value self) (edit_cursor self),
                                  edit_cursor := max 0 (edit_cursor self - 1)\<rparr>, stop ev)
                       else (self, ev));
         (self, ev) = (if key ev = Some ascii_DEL
                       then (self\<lparr>edit_value := slice_to (edit_value self) (edit_cursor self)
                                                  @ slice_from (edit_value self) (edit_cursor self + 1)\<rparr>,
                             stop ev)
                       else (self, ev));
         (self, ev) = (if key ev = Some KEY_LEFT \<and> edit_cursor self > 0
                       then (self\<lparr>edit_cursor := edit_cursor self - 1\<rparr>, stop ev)
                       else (self, ev));
         (self, ev) = (if key ev = Some KEY_RIGHT \<and> edit_cursor self < int (length (edit_value self))
                       then (self\<lparr>edit_cursor := edit_cursor self + 1\<rparr>, stop ev)
                       else (self, ev));
         ev = (if is_enter ev then ev\<lparr>key := Some ascii_TAB\<rparr> else ev)
     in (case key ev of
           None \<Rightarrow> Inl TypeError
         | Some k \<Rightarrow>
             if 32 \<le> k \<and> k < 127
             then Inr (self\<lparr>edit_value := slice_to (edit_value self) (edit_cursor self)
                                           @ [char_of k]
                                           @ slice_from (edit_value self) (edit_cursor self),
                           edit_cursor := edit_cursor self + 1\<rparr>, stop ev)
             else Inr (self, ev)))"

text \<open>
  The run loop (line 709) wraps every keystroke in \<^verbatim>\<open>Event('key', c, ...)\<close>. A sequence of
  keystrokes handled by one Edit, stopping at the first exception:
\<close>

definition key_event :: "int \<Rightarrow> event" where
  "key_event k = Event KeyEvent (Some k) None"

fun edit_keys :: "edit \<Rightarrow> int list \<Rightarrow> error + edit" where
  "edit_keys self [] = Inr self"
| "edit_keys self (k # ks) =
     (case edit_on_event self (key_event k) of
        Inl e \<Rightarrow> Inl e
      | Inr (self', ev') \<Rightarrow> edit_keys self' ks)"

definition edit_inv :: "edit \<Rightarrow> bool" where
  "edit_inv self = (0 \<le> edit_cursor self \<and> edit_cursor self \<le> int (length (edit_value self)))"

section \<open>SelectList\<close>

text \<open>
  class SelectList (lines 320-354): the choices, the selected \<^verbatim>\<open>index\<close>, the size of the
  visible window and the \<^verbatim>\<open>scroll_offset\<close> of its first line. \<^verbatim>\<open>width\<close> and \<^verbatim>\<open>height\<close>
  default to 30 and 10.
\<close>

record select_list =
  sl_choices :: "string list"
  sl_index :: int
  sl_width :: int
  sl_height :: int
  sl_scroll_offset :: int

definition SelectList_init :: "string list \<Rightarrow> int \<Rightarrow> int \<Rightarrow> int \<Rightarrow> select_list" where
  "SelectList_init choices index width height =
     \<lparr>sl_choices = choices, sl_index = index, sl_width = width, sl_height = height,
      sl_scroll_offset = max 0 (min index (int (length choices) - height))\<rparr>"

text \<open>\<^verbatim>\<open>SelectList.on_event\<close> (lines 345-354): two independent \<^verbatim>\<open>if\<close> statements.\<close>

definition select_list_on_event :: "select_list \<Rightarrow> event \<Rightarrow> select_list \<times> event" where
  "select_list_on_event self0 ev0 =
    (if ev_type ev0 = KeyEvent then
       let (self, ev) = (self0, ev0);
           (self, ev) =
             (if key ev = Some KEY_UP \<and> 0 < sl_index self then
                let self = self\<lparr>sl_index := sl_index self - 1\<rparr>;
                    self = self\<lparr>sl_scroll_offset := min (sl_scroll_offset self) (sl_index self)\<rparr>
                in (self, stop ev)
              else (self, ev));
           (self, ev) =
             (if key ev = Some KEY_DOWN \<and> sl_index self < int (length (sl_choices self)) - 1 then
                let self = self\<lparr>sl_index := sl_index self + 1\<rparr>;
                    self = self\<lparr>sl_scroll_offset :=
                                  max (sl_scroll_offset self) (sl_index self - sl_height self + 1)\<rparr>
                in (self, stop ev)
              else (self, ev))
       in (self, ev)
     else (self0, ev0))"

fun select_list_keys :: "select_list \<Rightarrow> int list \<Rightarrow> select_list" where
  "select_list_keys self [] = self"
| "select_list_keys self (k # ks) =
     select_list_keys (fst (select_list_on_event self (key_event k))) ks"

text \<open>The invariant of section 4.2 of the specification, for N choices and window height H.\<close>

definition select_list_inv :: "select_list \<Rightarrow> bool" where
  "select_list_inv self =
     (0 \<le> sl_scroll_offset self
      \<and> sl_scroll_offset self \<le> max 0 (int (length (sl_choices self)) - sl_height self)
      \<and> sl_scroll_offset self \<le> sl_index self
      \<and> sl_index self \<le> sl_scroll_offset self + sl_height self - 1)"

text \<open>The index is inside the window of \<^verbatim>\<open>height\<close> lines that starts at offset \<open>s\<close>.\<close>

definition in_window :: "select_list \<Rightarrow> int \<Rightarrow> bool" where
  "in_window self s = (s \<le> sl_index self \<and> sl_index self \<le> s + sl_height self - 1)"

section \<open>SelectDate\<close>

text \<open>
  class SelectDate (lines 358-403) holds a \<^verbatim>\<open>datetime.datetime\<close>. A value is modelled by
  its proleptic Gregorian ordinal (the day number of \<^verbatim>\<open>toordinal()\<close>) and its time of day
  in microseconds. Adding a \<^verbatim>\<open>timedelta\<close> of whole days adds to the ordinal and keeps the
  time of day; the library's \<^verbatim>\<open>datetime.__add__\<close> returns the sum when its day number \<open>d\<close>
  has \<open>0 < d \<le> _MAXORDINAL\<close> (0001-01-01 to 9999-12-31) and raises OverflowError
  otherwise. \<^verbatim>\<open>timedelta(weeks=n)\<close> is \<open>7 * n\<close> days.
\<close>

record datetime =
  dt_ordinal :: int
  dt_micros :: int

definition MAXORDINAL :: int where "MAXORDINAL = 3652059"

definition add_days :: "datetime \<Rightarrow> int \<Rightarrow> error + datetime" where
  "add_days d n =
     (let days = dt_ordinal d + n
      in if 0 < days \<and> days \<le> MAXORDINAL then Inr (d\<lparr>dt_ordinal := days\<rparr>)
         else Inl OverflowError)"

definition ord_t :: int where "ord_t = of_char CHR ''t''"

text \<open>
  \<^verbatim>\<open>SelectDate.on_event\<close> (lines 387-403) tests \<^verbatim>\<open>ev.what\<close>, five independent \<^verbatim>\<open>if\<close>
  statements. \<open>now\<close> is what \<^verbatim>\<open>datetime.datetime.now()\<close> returns at the call. \<open>move\<close> is
  the body of each of the four arithmetic branches: the addition, which may raise, and
  then \<^verbatim>\<open>ev.stop()\<close>.
\<close>

definition move :: "datetime \<Rightarrow> event \<Rightarrow> int \<Rightarrow> error + datetime \<times> event" where
  "move v ev n = (case add_days v n of Inl e \<Rightarrow> Inl e | Inr v' \<Rightarrow> Inr (v', stop ev))"

definition select_date_on_event :: "datetime \<Rightarrow> datetime \<Rightarrow> event \<Rightarrow> error + datetime \<times> event" where
  "select_date_on_event now value0 ev0 =
    (if ev_type ev0 = KeyEvent then
       let (v, ev) = (if what ev0 = Some ord_t then (now, stop ev0) else (value0, ev0))
       in case (if what ev = Some KEY_LEFT then move v ev (-1) else Inr (v, ev)) of
            Inl e \<Rightarrow> Inl e
          | Inr (v, ev) \<Rightarrow>
       case (if what ev = Some KEY_RIGHT then move v ev 1 else Inr (v, ev)) of
            Inl e \<Rightarrow> Inl e
          | Inr (v, ev) \<Rightarrow>
       case (if what ev = Some KEY_UP then move v ev (7 * (-1)) else Inr (v, ev)) of
            Inl e \<Rightarrow> Inl e
          | Inr (v, ev) \<Rightarrow>
       (if what ev = Some KEY_DOWN then move v ev (7 * 1) else Inr (v, ev))
     else Inr (value0, ev0))"

text \<open>
  The calendar date of a scenario is turned into its ordinal by the Gregorian rule the
  library uses (\<^verbatim>\<open>_ymd2ord\<close>: days before the year, days before the month, day of month).
\<close>

definition is_leap :: "int \<Rightarrow> bool" where
  "is_leap y = (y mod 4 = 0 \<and> (y mod 100 \<noteq> 0 \<or> y mod 400 = 0))"

definition days_before_year :: "int \<Rightarrow> int" where
  "days_before_year year = (let y = year - 1 in y * 365 + y div 4 - y div 100 + y div 400)"

definition days_in_month :: "int \<Rightarrow> nat \<Rightarrow> int" where
  "days_in_month y m =
     (if m = 2 \<and> is_leap y then 29
      else [31, 28, 31, 30, 31, 30, 31, 31, 30, 31, 30, 31] ! (m - 1))"

definition days_before_month :: "int \<Rightarrow> nat \<Rightarrow> int" where
  "days_before_month y m = sum_list (map (days_in_month y) [1..<m])"

definition ymd2ord :: "int \<Rightarrow> nat \<Rightarrow> int \<Rightarrow> int" where
  "ymd2ord y m d = days_before_year y + days_before_month y m + d"

definition date :: "int \<Rightarrow> nat \<Rightarrow> int \<Rightarrow> datetime" where
  "date y m d = \<lparr>dt_ordinal = ymd2ord y m d, dt_micros = 0\<rparr>"

section \<open>Rect and the Horizontal view\<close>

text \<open>
  class Rect (lines 566-590). The \<^verbatim>\<open>app\<close> and \<^verbatim>\<open>screen\<close> handles are carried along
  unchanged by the source and are left out. \<^verbatim>\<open>adj_rect\<close>'s \<^verbatim>\<open>dw\<close> and \<^verbatim>\<open>dh\<close> default to 0.
\<close>

record rect =
  rect_x :: int
  rect_y :: int
  rect_w :: int
  rect_h :: int

definition sub_rect :: "rect \<Rightarrow> int \<Rightarrow> int \<Rightarrow> int \<Rightarrow> int \<Rightarrow> rect" where
  "sub_rect self dx dy w h =
     \<lparr>rect_x = rect_x self + dx, rect_y = rect_y self + dy, rect_w = w, rect_h = h\<rparr>"

definition adj_rect :: "rect \<Rightarrow> int \<Rightarrow> int \<Rightarrow> int \<Rightarrow> int \<Rightarrow> rect" where
  "adj_rect self dx dy dw dh = sub_rect self dx dy (rect_w self - dx - dw) (rect_h self - dy - dh)"

text \<open>
  A composite View calls two methods of its children, whatever their class:
  \<^verbatim>\<open>size(rect)\<close>, which returns a pair or raises, and \<^verbatim>\<open>display(rect)\<close>. A child is
  modelled by its \<^verbatim>\<open>size\<close> method. \<^verbatim>\<open>Display.size\<close> (line 63) and \<^verbatim>\<open>HFill.size\<close>
  (line 79) are the two leaf views.
\<close>

type_synonym view = "rect \<Rightarrow> error + int \<times> int"

definition Display_size :: "string \<Rightarrow> int \<Rightarrow> view" where
  "Display_size text min_width rect = Inr (max min_width (int (length text)), 1)"

definition HFill_size :: view where
  "HFill_size rect = Inr (rect_w rect, 1)"

text \<open>
  \<^verbatim>\<open>Horizontal.size\<close> (lines 93-101). The loop measures each child against what is left of
  the rectangle after the children before it (their widths, without the margin);
  \<^verbatim>\<open>max(heights)\<close> raises ValueError on an empty list.
\<close>

fun horizontal_sizes :: "view list \<Rightarrow> rect \<Rightarrow> error + (int \<times> int) list" where
  "horizontal_sizes [] rect = Inr []"
| "horizontal_sizes (v # vs) rect =
     (case v rect of
        Inl e \<Rightarrow> Inl e
      | Inr s \<Rightarrow>
          (case horizontal_sizes vs (adj_rect rect (fst s) 0 0 0) of
             Inl e \<Rightarrow> Inl e
           | Inr ss \<Rightarrow> Inr (s # ss)))"

definition Horizontal_size :: "view list \<Rightarrow> int \<Rightarrow> view" where
  "Horizontal_size views margin rect =
     (case horizontal_sizes views rect of
        Inl e \<Rightarrow> Inl e
      | Inr sizes \<Rightarrow>
          let widths = map fst sizes; heights = map snd sizes
          in (case heights of
                [] \<Rightarrow> Inl ValueError
              | h # hs \<Rightarrow>
                  Inr (sum_list widths + max (int (length views) - 1) 0 * margin,
                       foldl max h hs)))"

text \<open>
  \<^verbatim>\<open>Horizontal.disp\<close> (lines 103-107) hands each child the rectangle it is painted in and
  moves on by the child's width plus the margin. The model keeps the rectangles handed
  out, in order; what the backend writes into them is outside the repository.
\<close>

fun Horizontal_disp :: "view list \<Rightarrow> int \<Rightarrow> rect \<Rightarrow> error + rect list" where
  "Horizontal_disp [] margin rect = Inr []"
| "Horizontal_disp (v # vs) margin rect =
     (case v rect of
        Inl e \<Rightarrow> Inl e
      | Inr s \<Rightarrow>
          (let dx = fst s + margin
           in case Horizontal_disp vs margin (adj_rect rect dx 0 0 0) of
                Inl e \<Rightarrow> Inl e
              | Inr rs \<Rightarrow> Inr (rect # rs)))"

section \<open>The control tree\<close>

text \<open>
  The Control classes (lines 233-563). A control holds its children by reference and
  the source never stores a parent link; the model keeps a control together with its
  children, as a tree, and gives every control the identity (a number) it was created
  with. The tree is the unfolding of the object graph from a root; an object that sits
  at two places appears with the same identity at both. Colours, the user-chosen \<^verbatim>\<open>id\<close>
  and a Panel's caption only matter to rendering and are left out. A Popup's
  \<^verbatim>\<open>on_close\<close> is a bound method of the widget that opened it: the only two in the
  source are \<^verbatim>\<open>Combo.on_popup_close\<close> and \<^verbatim>\<open>DateCombo.on_popup_close\<close>. For a Combo or a
  DateCombo the last field is the position \<^verbatim>\<open>(x, y)\<close> of \<^verbatim>\<open>self.last_combo.rect\<close>, present
  once the widget has been painted.
\<close>

datatype callback = Combo_on_popup_close nat | DateCombo_on_popup_close nat

datatype control =
    Text nat string
  | Panel nat "control list"
  | Labeled nat string control
  | SelectList nat select_list
  | SelectDate nat datetime
  | Composite nat "control list" int
  | Popup nat int int control callback string
  | Combo nat "string list" int "(int \<times> int) option"
  | DateCombo nat datetime "(int \<times> int) option"
  | Edit nat edit

fun ctrl_id :: "control \<Rightarrow> nat" where
  "ctrl_id (Text i _) = i"
| "ctrl_id (Panel i _) = i"
| "ctrl_id (Labeled i _ _) = i"
| "ctrl_id (SelectList i _) = i"
| "ctrl_id (SelectDate i _) = i"
| "ctrl_id (Composite i _ _) = i"
| "ctrl_id (Popup i _ _ _ _ _) = i"
| "ctrl_id (Combo i _ _ _) = i"
| "ctrl_id (DateCombo i _ _) = i"
| "ctrl_id (Edit i _) = i"

text \<open>
  \<^verbatim>\<open>can_focus\<close> is set by the constructors only: \<^verbatim>\<open>Control.__init__\<close> sets it to False
  (line 238), and SelectList, SelectDate, Combo, DateCombo and Edit set it to True.
\<close>

fun can_focus :: "control \<Rightarrow> bool" where
  "can_focus (Text _ _) = False"
| "can_focus (Panel _ _) = False"
| "can_focus (Labeled _ _ _) = False"
| "can_focus (SelectList _ _) = True"
| "can_focus (SelectDate _ _) = True"
| "can_focus (Composite _ _ _) = False"
| "can_focus (Popup _ _ _ _ _ _) = False"
| "can_focus (Combo _ _ _ _) = True"
| "can_focus (DateCombo _ _ _) = True"
| "can_focus (Edit _ _) = True"

text \<open>The \<^verbatim>\<open>children()\<close> methods (lines 243, 286, 316, 418, 451).\<close>

fun children :: "control \<Rightarrow> control list" where
  "children (Panel _ controls) = controls"
| "children (Labeled _ _ c) = [c]"
| "children (Composite _ controls _) = controls"
| "children (Popup _ _ _ inner _ _) = [inner]"
| "children (Text _ _) = []"
| "children (SelectList _ _) = []"
| "children (SelectDate _ _) = []"
| "children (Combo _ _ _ _) = []"
| "children (DateCombo _ _ _) = []"
| "children (Edit _ _) = []"

text \<open>
  class Layer (lines 604-649) and class App (lines 652-738). \<^verbatim>\<open>focused\<close> is a reference
  to a control, kept as that control's identity. The App's screen handle and colour
  cache belong to rendering and are left out.
\<close>

record layer =
  layer_id :: nat
  root :: control
  focused :: nat

record app =
  exit :: bool
  layers :: "layer list"

text \<open>
  \<^verbatim>\<open>object_tree\<close> (lines 593-601) walks Apps, Layers and Controls alike through their
  \<^verbatim>\<open>children()\<close> methods (lines 628, 673).
\<close>

datatype node = NApp app | NLayer layer | NCtrl control

fun ident_of :: "node \<Rightarrow> ident" where
  "ident_of (NApp a) = AppId"
| "ident_of (NLayer l) = LayerId (layer_id l)"
| "ident_of (NCtrl c) = CtrlId (ctrl_id c)"

fun node_children :: "node \<Rightarrow> node list" where
  "node_children (NApp a) = map NLayer (layers a)"
| "node_children (NLayer l) = [NCtrl (root l)]"
| "node_children (NCtrl c) = map NCtrl (children c)"

fun node_size :: "node \<Rightarrow> nat" where
  "node_size (NCtrl c) = Suc (size c)"
| "node_size (NLayer l) = Suc (Suc (size (root l)))"
| "node_size (NApp a) = Suc (sum_list (map (\<lambda>l. Suc (Suc (size (root l)))) (layers a)))"

lemma children_size: "sum_list (map (\<lambda>c. Suc (size c)) (children c)) \<le> size c"
proof -
  have "sum_list (map (\<lambda>c. Suc (size c)) cs) = size_list size cs" for cs :: "control list"
    by (induction cs) auto
  then show ?thesis
    by (cases c) auto
qed

lemma node_children_size: "sum_list (map node_size (node_children n)) < node_size n"
proof (cases n)
  case (NCtrl c)
  then show ?thesis using children_size[of c] by (simp add: comp_def le_imp_less_Suc)
qed (simp_all add: comp_def)

text \<open>
  The generator's loop: the Python stack, whose top is its last element, is kept with
  its top as the head of the list, so that \<^verbatim>\<open>stack.pop()\<close> takes the head and
  \<^verbatim>\<open>stack.extend(reversed(children))\<close> puts the children in front, first child on top.
  The pairs are \<^verbatim>\<open>(parent, child)\<close> in the order they are yielded.
\<close>

function object_tree_loop :: "node list \<Rightarrow> (node option \<times> node) list" where
  "object_tree_loop [] = []"
| "object_tree_loop (parent # stack) =
     map (\<lambda>child. (Some parent, child)) (node_children parent)
     @ object_tree_loop (node_children parent @ stack)"
  by pat_completeness auto
termination
  by (relation "measure (\<lambda>stack. sum_list (map node_size stack))")
     (use node_children_size in \<open>auto simp: add.commute intro: add_strict_right_mono\<close>)

definition object_tree :: "node \<Rightarrow> (node option \<times> node) list" where
  "object_tree root_node = (None, root_node) # object_tree_loop [root_node]"

lemma object_tree_loop_append:
  "object_tree_loop (xs @ ys) = object_tree_loop xs @ object_tree_loop ys"
proof (induction "xs @ ys" arbitrary: xs ys rule: object_tree_loop.induct)
  case 1
  then show ?case by simp
next
  case (2 parent stack)
  show ?case
  proof (cases xs)
    case Nil
    then show ?thesis by simp
  next
    case (Cons x xs')
    then have eq: "parent = x" "stack = xs' @ ys" using 2(2) by auto
    have "object_tree_loop ((node_children parent @ xs') @ ys)
            = object_tree_loop (node_children parent @ xs') @ object_tree_loop ys"
      by (rule 2(1)) (simp add: eq)
    then show ?thesis by (simp add: Cons eq)
  qed
qed

text \<open>
  \<^verbatim>\<open>get_parent\<close> (lines 676-680): the parent in the first pair whose child is the
  control. The root of the walk, the App, is yielded with parent \<^verbatim>\<open>None\<close>.
\<close>

definition get_parent :: "app \<Rightarrow> ident \<Rightarrow> ident option" where
  "get_parent self ctrl =
     (case find (\<lambda>(parent, child). ident_of child = ctrl) (object_tree (NApp self)) of
        None \<Rightarrow> None
      | Some (parent, child) \<Rightarrow> map_option ident_of parent)"

text \<open>
  \<^verbatim>\<open>find_ancestor\<close> (lines 685-690) follows \<^verbatim>\<open>get_parent\<close> upwards until it meets a member
  of the given list. The loop ends because a parent is always yielded before its
  children: the position of the first pair that yields an object decreases along the
  way.
\<close>

definition first_pos :: "app \<Rightarrow> ident \<Rightarrow> nat" where
  "first_pos a t = length (takeWhile (\<lambda>(parent, child). ident_of child \<noteq> t) (object_tree (NApp a)))"

lemma loop_parents_before:
  "(Some p, c) \<in> set (object_tree_loop stack) \<Longrightarrow> k < length (object_tree_loop stack) \<Longrightarrow>
   object_tree_loop stack ! k = (Some p, c) \<Longrightarrow>
   p \<in> set stack \<or> (\<exists>j<k. snd (object_tree_loop stack ! j) = p)"
proof (induction stack arbitrary: k rule: object_tree_loop.induct)
  case 1
  then show ?case by simp
next
  case (2 parent stack)
  let ?ys = "map (\<lambda>child. (Some parent, child)) (node_children parent)"
  let ?rest = "object_tree_loop (node_children parent @ stack)"
  show ?case
  proof (cases "k < length ?ys")
    case True
    then have "(?ys @ ?rest) ! k = ?ys ! k" by (simp add: nth_append)
    then have "p = parent" using 2(4) True by simp
    then show ?thesis by simp
  next
    case False
    define k' where "k' = k - length ?ys"
    have k: "k = length ?ys + k'" using False by (simp add: k'_def)
    have nth: "?rest ! k' = (Some p, c)" using 2(4) by (simp add: k nth_append)
    have len: "k' < length ?rest" using 2(3) by (simp add: k)
    have mem: "(Some p, c) \<in> set ?rest" using nth len by (metis nth_mem)
    from 2(1)[OF mem len nth] consider "p \<in> set (node_children parent)" | "p \<in> set stack"
      | j where "j < k'" "snd (?rest ! j) = p" by auto
    then show ?thesis
    proof cases
      case 1
      then obtain j where j: "j < length (node_children parent)" "node_children parent ! j = p"
        by (auto simp: in_set_conv_nth)
      then have "snd ((?ys @ ?rest) ! j) = p" by (simp add: nth_append)
      moreover have "j < k" using j False by simp
      ultimately show ?thesis by auto
    next
      case 2
      then show ?thesis by simp
    next
      case 3
      then have "snd ((?ys @ ?rest) ! (length ?ys + j)) = p" by (simp add: nth_append)
      moreover have "length ?ys + j < k" using 3 k by simp
      ultimately show ?thesis by (auto simp del: length_map)
    qed
  qed
qed


lemma first_pos_le:
  assumes "j < length (object_tree (NApp a))" "ident_of (snd (object_tree (NApp a) ! j)) = t"
  shows "first_pos a t \<le> j"
proof (rule ccontr)
  assume "\<not> first_pos a t \<le> j"
  then have j: "j < length (takeWhile (\<lambda>(parent, child). ident_of child \<noteq> t) (object_tree (NApp a)))"
    by (simp add: first_pos_def)
  then have "takeWhile (\<lambda>(parent, child). ident_of child \<noteq> t) (object_tree (NApp a)) ! j
               \<in> set (takeWhile (\<lambda>(parent, child). ident_of child \<noteq> t) (object_tree (NApp a)))"
    by (rule nth_mem)
  then have "(\<lambda>(parent, child). ident_of child \<noteq> t) (object_tree (NApp a) ! j)"
    using j by (auto simp: takeWhile_nth dest: set_takeWhileD)
  then show False using assms(2) by (simp add: case_prod_beta)
qed

lemma get_parent_first_pos:
  assumes "get_parent a x = Some p"
  shows "first_pos a p < first_pos a x"
proof -
  let ?ot = "object_tree (NApp a)"
  let ?P = "\<lambda>(parent, child). ident_of child = x"
  from assms obtain pn c where f: "find ?P ?ot = Some (Some pn, c)" and p: "ident_of pn = p"
    by (auto simp: get_parent_def split: option.splits)
  then obtain k where k: "k < length ?ot" "?ot ! k = (Some pn, c)" "\<forall>j<k. \<not> ?P (?ot ! j)"
    by (auto simp: find_Some_iff)
  have kpos: "first_pos a x = k"
  proof -
    have "takeWhile (\<lambda>(parent, child). ident_of child \<noteq> x) ?ot = take k ?ot"
    proof (rule takeWhile_eq_take_P_nth)
      show "\<And>i. i < k \<Longrightarrow> i < length ?ot \<Longrightarrow> (case ?ot ! i of (parent, child) \<Rightarrow> ident_of child \<noteq> x)"
        using k(3) by (auto simp: case_prod_beta)
      show "k < length ?ot \<Longrightarrow> \<not> (case ?ot ! k of (parent, child) \<Rightarrow> ident_of child \<noteq> x)"
        using f k by (auto simp: find_Some_iff)
    qed
    then show ?thesis using k(1) by (simp add: first_pos_def)
  qed
  have k0: "k \<noteq> 0"
  proof
    assume "k = 0"
    then show False using k(2) by (simp add: object_tree_def)
  qed
  then obtain k' where k': "k = Suc k'" by (cases k) auto
  have nth: "object_tree_loop [NApp a] ! k' = (Some pn, c)" using k(2) by (simp add: object_tree_def k')
  have len: "k' < length (object_tree_loop [NApp a])" using k(1) by (simp add: object_tree_def k')
  have mem: "(Some pn, c) \<in> set (object_tree_loop [NApp a])" using nth len by (metis nth_mem)
  from loop_parents_before[OF mem len nth]
  consider "pn = NApp a" | j where "j < k'" "snd (object_tree_loop [NApp a] ! j) = pn" by auto
  then have "first_pos a p < k"
  proof cases
    case 1
    have "first_pos a p \<le> 0"
      by (rule first_pos_le) (use 1 p in \<open>auto simp: object_tree_def\<close>)
    then show ?thesis using k0 by simp
  next
    case 2
    have "first_pos a p \<le> Suc j"
      by (rule first_pos_le) (use 2 p k k' in \<open>auto simp: object_tree_def\<close>)
    then show ?thesis using 2 k' by simp
  qed
  then show ?thesis by (simp add: kpos)
qed

function find_ancestor :: "app \<Rightarrow> ident option \<Rightarrow> ident list \<Rightarrow> ident option" where
  "find_ancestor self None set0 = None"
| "find_ancestor self (Some ctrl) set0 =
     (if ctrl \<in> set set0 then Some ctrl else find_ancestor self (get_parent self ctrl) set0)"
  by pat_completeness auto
termination
  by (relation "measure (\<lambda>(a, ctrl, s). case ctrl of None \<Rightarrow> 0 | Some c \<Rightarrow> Suc (first_pos a c))")
     (auto split: option.splits dest: get_parent_first_pos)

section \<open>Layer\<close>

text \<open>
  \<^verbatim>\<open>Layer.focus\<close> (lines 631-640): a focusable control takes the focus; otherwise the
  children are tried in order, and the first success ends the search.
  Before and after the focus moves, the old and the new focused control receive a
  \<^verbatim>\<open>'blur'\<close> and a \<^verbatim>\<open>'focus'\<close> event whose key is \<^verbatim>\<open>None\<close>. No \<^verbatim>\<open>on_event\<close> of the source
  reacts to them (each either tests \<^verbatim>\<open>ev.type == 'key'\<close> or compares the key with
  integer codes), so the two calls are left out.
\<close>

function focus :: "layer \<Rightarrow> control \<Rightarrow> layer \<times> bool"
  and focus_children :: "layer \<Rightarrow> control list \<Rightarrow> layer \<times> bool" where
  "focus self ctrl =
     (if can_focus ctrl then (self\<lparr>focused := ctrl_id ctrl\<rparr>, True)
      else focus_children self (children ctrl))"
| "focus_children self [] = (self, False)"
| "focus_children self (child # rest) =
     (case focus self child of
        (self', ok) \<Rightarrow> if ok then (self', True) else focus_children self' rest)"
  by pat_completeness auto
termination
proof (relation "measure (\<lambda>x. case x of
                     Inl (l, c) \<Rightarrow> 2 * Suc (size c)
                   | Inr (l, cs) \<Rightarrow> Suc (2 * sum_list (map (\<lambda>c. Suc (size c)) cs)))")
  show "wf (measure (\<lambda>x. case x of
                     Inl (l, c) \<Rightarrow> 2 * Suc (size c)
                   | Inr (l, cs) \<Rightarrow> Suc (2 * sum_list (map (\<lambda>c. Suc (size c)) cs))))"
    by simp
next
  fix self ctrl
  show "(Inr (self, children ctrl), Inl (self, ctrl))
        \<in> measure (\<lambda>x. case x of
                     Inl (l, c) \<Rightarrow> 2 * Suc (size c)
                   | Inr (l, cs) \<Rightarrow> Suc (2 * sum_list (map (\<lambda>c. Suc (size c)) cs)))"
    using children_size[of ctrl] by simp
qed auto

text \<open>
  \<^verbatim>\<open>_focus_first\<close> and \<^verbatim>\<open>_focus_last\<close> (lines 614-626) search the pairs that
  \<^verbatim>\<open>object_tree(self)\<close> yields, forwards or backwards, for the first child whose
  \<^verbatim>\<open>can_focus\<close> is true. The Layer itself is yielded first; its \<^verbatim>\<open>can_focus\<close> is False
  (line 610).
\<close>

fun node_can_focus :: "node \<Rightarrow> bool" where
  "node_can_focus (NCtrl c) = can_focus c"
| "node_can_focus (NLayer l) = False"
| "node_can_focus (NApp a) = False"

definition focus_node :: "layer \<Rightarrow> node \<Rightarrow> layer" where
  "focus_node self child = (case child of NCtrl c \<Rightarrow> fst (focus self c) | _ \<Rightarrow> self)"

definition focus_first :: "layer \<Rightarrow> layer" where
  "focus_first self =
     (case find (\<lambda>(parent, child). node_can_focus child) (object_tree (NLayer self)) of
        None \<Rightarrow> self
      | Some (parent, child) \<Rightarrow> focus_node self child)"

definition focus_last :: "layer \<Rightarrow> layer" where
  "focus_last self =
     (let controls = rev (object_tree (NLayer self))
      in case find (\<lambda>(parent, child). node_can_focus child) controls of
           None \<Rightarrow> self
         | Some (parent, child) \<Rightarrow> focus_node self child)"

text \<open>\<^verbatim>\<open>Layer.__init__\<close> (lines 607-612); \<open>i\<close> is the identity of the new Layer.\<close>

definition Layer_init :: "nat \<Rightarrow> control \<Rightarrow> layer" where
  "Layer_init i root_ctrl =
     focus_first \<lparr>layer_id = i, root = root_ctrl, focused = ctrl_id root_ctrl\<rparr>"

section \<open>App\<close>

text \<open>
  A new object gets an identity that no object of the App's tree has: one more than
  the greatest number in use.
\<close>

fun id_number :: "ident \<Rightarrow> nat" where
  "id_number AppId = 0"
| "id_number (LayerId i) = i"
| "id_number (CtrlId i) = i"

definition new_id :: "node list \<Rightarrow> nat" where
  "new_id roots =
     Suc (fold max (map (id_number \<circ> ident_of \<circ> snd) (concat (map object_tree roots))) 0)"

text \<open>\<^verbatim>\<open>App.__init__\<close>, \<^verbatim>\<open>active_layer\<close>, \<^verbatim>\<open>push_layer\<close>, \<^verbatim>\<open>pop_layer\<close> (lines 653-668).\<close>

definition App_init :: "control \<Rightarrow> app" where
  "App_init root_ctrl =
     \<lparr>exit = False, layers = [Layer_init (new_id [NCtrl root_ctrl]) root_ctrl]\<rparr>"

definition active_layer :: "app \<Rightarrow> error + layer" where
  "active_layer self = (if layers self = [] then Inl IndexError else Inr (last (layers self)))"

definition push_layer :: "app \<Rightarrow> control \<Rightarrow> app" where
  "push_layer self control =
     self\<lparr>layers := layers self @ [Layer_init (new_id [NApp self, NCtrl control]) control]\<rparr>"

definition pop_layer :: "app \<Rightarrow> error + app" where
  "pop_layer self =
     (if layers self = [] then Inl IndexError else Inr (self\<lparr>layers := butlast (layers self)\<rparr>))"

text \<open>\<^verbatim>\<open>layer\<close> (line 692): the Layer among \<^verbatim>\<open>self.layers\<close> that \<open>ctrl\<close> is found under.\<close>

definition layer_of :: "app \<Rightarrow> ident \<Rightarrow> ident option" where
  "layer_of self ctrl = find_ancestor self (Some ctrl) (map (ident_of \<circ> NLayer) (layers self))"

text \<open>
  The object an identity stands for is the first one \<^verbatim>\<open>object_tree\<close> yields with that
  identity; a change of a control's state is seen wherever the control sits.
\<close>

definition find_node :: "app \<Rightarrow> ident \<Rightarrow> node option" where
  "find_node self i =
     map_option snd (find (\<lambda>(parent, child). ident_of child = i) (object_tree (NApp self)))"

fun update :: "nat \<Rightarrow> (control \<Rightarrow> control) \<Rightarrow> control \<Rightarrow> control" where
  "update i f (Panel n controls) =
     (if n = i then f (Panel n controls) else Panel n (map (update i f) controls))"
| "update i f (Labeled n label c) =
     (if n = i then f (Labeled n label c) else Labeled n label (update i f c))"
| "update i f (Composite n controls margin) =
     (if n = i then f (Composite n controls margin)
      else Composite n (map (update i f) controls) margin)"
| "update i f (Popup n x y inner on_close caption) =
     (if n = i then f (Popup n x y inner on_close caption)
      else Popup n x y (update i f inner) on_close caption)"
| "update i f c = (if ctrl_id c = i then f c else c)"

definition update_app :: "nat \<Rightarrow> (control \<Rightarrow> control) \<Rightarrow> app \<Rightarrow> app" where
  "update_app i f self = self\<lparr>layers := map (\<lambda>l. l\<lparr>root := update i f (root l)\<rparr>) (layers self)\<rparr>"

text \<open>
  A call of \<^verbatim>\<open>focus\<close> on the Layer object with identity \<open>l\<close>; the result is the call's
  return value.
\<close>

definition focus_in_layer :: "app \<Rightarrow> nat \<Rightarrow> control \<Rightarrow> app \<times> bool" where
  "focus_in_layer self l ctrl =
     (self\<lparr>layers := map (\<lambda>x. if layer_id x = l then fst (focus x ctrl) else x) (layers self)\<rparr>,
      case find (\<lambda>x. layer_id x = l) (layers self) of
        None \<Rightarrow> False
      | Some x \<Rightarrow> snd (focus x ctrl))"

section \<open>Event handlers\<close>

text \<open>
  The focus navigation shared by \<^verbatim>\<open>Panel.on_event\<close> (lines 289-300) and
  \<^verbatim>\<open>Composite.on_event\<close> (lines 421-433). \<open>back\<close> is the source's \<^verbatim>\<open>up\<close> or \<^verbatim>\<open>left\<close>.
  The loop steps \<open>i\<close> through the children until one takes the focus or the list is
  left; \<^verbatim>\<open>ev.app.layer(self)\<close> is \<^verbatim>\<open>None\<close> when the control is under no Layer, and the
  call of \<^verbatim>\<open>focus\<close> on it raises AttributeError.
\<close>

function navigate :: "app \<Rightarrow> event \<Rightarrow> nat \<Rightarrow> control list \<Rightarrow> bool \<Rightarrow> int \<Rightarrow> error + app \<times> event" where
  "navigate a ev self controls back i =
     (if 0 \<le> i \<and> i < int (length controls) \<and> propagating ev then
        let i = i + (if back then - 1 else 1) in
        if 0 \<le> i \<and> i < int (length controls) then
          (case layer_of a (CtrlId self) of
             None \<Rightarrow> Inl AttributeError
           | Some AppId \<Rightarrow> Inl AttributeError
           | Some (CtrlId c) \<Rightarrow> Inl AttributeError
           | Some (LayerId l) \<Rightarrow>
               (case focus_in_layer a l (controls ! nat i) of
                  (a', ok) \<Rightarrow> navigate a' (if ok then stop ev else ev) self controls back i))
        else navigate a ev self controls back i
      else Inr (a, ev))"
  by pat_completeness auto
termination
  by (relation "measure (\<lambda>(a, ev, self, controls, back, i).
                   if back then nat (i + 1) else nat (int (length controls) - i))")
     auto

definition index_of :: "control list \<Rightarrow> ident \<Rightarrow> int" where
  "index_of controls current =
     int (length (takeWhile (\<lambda>c. CtrlId (ctrl_id c) \<noteq> current) controls))"

definition navigate_from :: "app \<Rightarrow> event \<Rightarrow> nat \<Rightarrow> control list \<Rightarrow> bool \<Rightarrow> error + app \<times> event" where
  "navigate_from a ev self controls back =
     (case find_ancestor a (ev_last ev) (map (CtrlId \<circ> ctrl_id) controls) of
        None \<Rightarrow> Inr (a, ev)
      | Some current \<Rightarrow> navigate a ev self controls back (index_of controls current))"

definition Panel_on_event :: "app \<Rightarrow> event \<Rightarrow> nat \<Rightarrow> control list \<Rightarrow> error + app \<times> event" where
  "Panel_on_event a ev self controls =
     (if key ev \<in> set [Some KEY_UP, Some KEY_DOWN, Some ascii_TAB, Some SHIFT_TAB] then
        let up = key ev \<in> set [Some KEY_UP, Some SHIFT_TAB]
        in navigate_from a ev self controls up
      else Inr (a, ev))"

definition Composite_on_event :: "app \<Rightarrow> event \<Rightarrow> nat \<Rightarrow> control list \<Rightarrow> error + app \<times> event" where
  "Composite_on_event a ev self controls =
     (if ev_type ev = KeyEvent then
        if key ev \<in> set [Some KEY_LEFT, Some SHIFT_TAB, Some KEY_RIGHT, Some ascii_TAB] then
          let left = key ev \<in> set [Some KEY_LEFT, Some SHIFT_TAB]
          in navigate_from a ev self controls left
        else Inr (a, ev)
      else Inr (a, ev))"

text \<open>
  The two completion callbacks (lines 491-493 and 515-517), called with the Popup's
  inner control. \<^verbatim>\<open>popup.inner.index\<close> exists on a SelectList and on a Combo;
  \<^verbatim>\<open>popup.inner.value\<close> is a date on a SelectDate and on a DateCombo. A DateCombo whose
  value is not a date (the text of an Edit, say) is outside the model.
\<close>

fun set_index :: "int \<Rightarrow> control \<Rightarrow> control" where
  "set_index j (Combo n choices i r) = Combo n choices j r"
| "set_index j c = c"

fun set_date :: "datetime \<Rightarrow> control \<Rightarrow> control" where
  "set_date v (DateCombo n d r) = DateCombo n v r"
| "set_date v c = c"

fun on_close :: "callback \<Rightarrow> app \<Rightarrow> bool \<Rightarrow> control \<Rightarrow> error + app" where
  "on_close (Combo_on_popup_close self) a success inner =
     (if success then
        (case inner of
           SelectList _ s \<Rightarrow> Inr (update_app self (set_index (sl_index s)) a)
         | Combo _ _ i _ \<Rightarrow> Inr (update_app self (set_index i) a)
         | _ \<Rightarrow> Inl AttributeError)
      else Inr a)"
| "on_close (DateCombo_on_popup_close self) a success inner =
     (if success then
        (case inner of
           SelectDate _ v \<Rightarrow> Inr (update_app self (set_date v) a)
         | DateCombo _ v _ \<Rightarrow> Inr (update_app self (set_date v) a)
         | Text _ _ \<Rightarrow> Inl AttributeError
         | Panel _ _ \<Rightarrow> Inl AttributeError
         | Labeled _ _ _ \<Rightarrow> Inl AttributeError
         | Composite _ _ _ \<Rightarrow> Inl AttributeError
         | Popup _ _ _ _ _ _ \<Rightarrow> Inl AttributeError
         | _ \<Rightarrow> Inl Unmodelled)
      else Inr a)"

text \<open>\<^verbatim>\<open>Popup.on_event\<close> (lines 457-464): two independent \<^verbatim>\<open>if\<close> statements.\<close>

definition Popup_on_event :: "app \<Rightarrow> event \<Rightarrow> control \<Rightarrow> callback \<Rightarrow> error + app \<times> event" where
  "Popup_on_event a0 ev inner cb =
     (if ev_type ev = KeyEvent then
        (case (if key ev = Some ascii_ESC
               then (case on_close cb a0 False inner of Inl e \<Rightarrow> Inl e | Inr a \<Rightarrow> pop_layer a)
               else Inr a0) of
           Inl e \<Rightarrow> Inl e
         | Inr a1 \<Rightarrow>
             (case (if is_enter ev
                    then (case on_close cb a1 True inner of Inl e \<Rightarrow> Inl e | Inr a \<Rightarrow> pop_layer a)
                    else Inr a1) of
                Inl e \<Rightarrow> Inl e
              | Inr a2 \<Rightarrow> Inr (a2, ev)))
      else Inr (a0, ev))"

text \<open>
  \<^verbatim>\<open>Combo.on_event\<close> (lines 484-489) and \<^verbatim>\<open>DateCombo.on_event\<close> (lines 508-513). Reading
  \<^verbatim>\<open>self.last_combo.rect\<close> raises AttributeError before the widget was painted. The
  inner widget is created first, then the Popup, then the Layer; \<^verbatim>\<open>SelectList\<close> is built
  with its default width 30 and height 10, and the Popup with its default caption.
\<close>

definition Combo_on_event ::
  "app \<Rightarrow> event \<Rightarrow> nat \<Rightarrow> string list \<Rightarrow> int \<Rightarrow> (int \<times> int) option \<Rightarrow> error + app \<times> event" where
  "Combo_on_event a ev self choices index last_combo =
     (if ev_type ev = KeyEvent \<and> is_enter ev then
        (case last_combo of
           None \<Rightarrow> Inl AttributeError
         | Some (rx, ry) \<Rightarrow>
             let x = max 0 (rx - 2);
                 y = max 0 (ry - 1);
                 n = new_id [NApp a];
                 inner = SelectList n (SelectList_init choices index 30 10);
                 popup = Popup (Suc n) x y inner (Combo_on_popup_close self) ''''
             in Inr (push_layer a popup, ev))
      else Inr (a, ev))"

definition DateCombo_on_event ::
  "app \<Rightarrow> event \<Rightarrow> nat \<Rightarrow> datetime \<Rightarrow> (int \<times> int) option \<Rightarrow> error + app \<times> event" where
  "DateCombo_on_event a ev self v last_combo =
     (if ev_type ev = KeyEvent \<and> is_enter ev then
        (case last_combo of
           None \<Rightarrow> Inl AttributeError
         | Some (rx, ry) \<Rightarrow>
             let x = max 0 (rx - 2);
                 y = max 0 (ry - 1);
                 n = new_id [NApp a];
                 inner = SelectDate n v;
                 popup = Popup (Suc n) x y inner (DateCombo_on_popup_close self) ''''
             in Inr (push_layer a popup, ev))
      else Inr (a, ev))"

text \<open>
  The state changes of the three widgets that only change themselves, written back to
  the control with the handler's identity.
\<close>

fun set_select_list :: "select_list \<Rightarrow> control \<Rightarrow> control" where
  "set_select_list s (SelectList n _) = SelectList n s"
| "set_select_list s c = c"

fun set_select_date :: "datetime \<Rightarrow> control \<Rightarrow> control" where
  "set_select_date v (SelectDate n _) = SelectDate n v"
| "set_select_date v c = c"

fun set_edit :: "edit \<Rightarrow> control \<Rightarrow> control" where
  "set_edit e (Edit n _) = Edit n e"
| "set_edit e c = c"

text \<open>
  The \<^verbatim>\<open>on_event\<close> method of each Control class; \<^verbatim>\<open>Control.on_event\<close> (line 246), which
  Text and Labeled inherit, does nothing.
\<close>

fun control_on_event :: "datetime \<Rightarrow> app \<Rightarrow> event \<Rightarrow> control \<Rightarrow> error + app \<times> event" where
  "control_on_event now a ev (Text n t) = Inr (a, ev)"
| "control_on_event now a ev (Labeled n label c) = Inr (a, ev)"
| "control_on_event now a ev (Panel n controls) = Panel_on_event a ev n controls"
| "control_on_event now a ev (Composite n controls margin) = Composite_on_event a ev n controls"
| "control_on_event now a ev (SelectList n s) =
     (case select_list_on_event s ev of
        (s', ev') \<Rightarrow> Inr (update_app n (set_select_list s') a, ev'))"
| "control_on_event now a ev (SelectDate n v) =
     (case select_date_on_event now v ev of
        Inl err \<Rightarrow> Inl err
      | Inr (v', ev') \<Rightarrow> Inr (update_app n (set_select_date v') a, ev'))"
| "control_on_event now a ev (Edit n e) =
     (case edit_on_event e ev of
        Inl err \<Rightarrow> Inl err
      | Inr (e', ev') \<Rightarrow> Inr (update_app n (set_edit e') a, ev'))"
| "control_on_event now a ev (Popup n x y inner cb caption) = Popup_on_event a ev inner cb"
| "control_on_event now a ev (Combo n choices index last_combo) =
     Combo_on_event a ev n choices index last_combo"
| "control_on_event now a ev (DateCombo n v last_combo) = DateCombo_on_event a ev n v last_combo"

text \<open>\<^verbatim>\<open>App.on_event\<close> (lines 729-738).\<close>

definition set_active_layer :: "app \<Rightarrow> (layer \<Rightarrow> layer) \<Rightarrow> error + app" where
  "set_active_layer self f =
     (case active_layer self of
        Inl e \<Rightarrow> Inl e
      | Inr l \<Rightarrow> Inr (self\<lparr>layers := butlast (layers self) @ [f l]\<rparr>))"

definition App_on_event :: "app \<Rightarrow> event \<Rightarrow> error + app \<times> event" where
  "App_on_event self0 ev0 =
     (let (self, ev) = (if key ev0 \<in> set [Some ascii_ESC]
                        then (self0\<lparr>exit := True\<rparr>, stop ev0) else (self0, ev0))
      in case (if key ev \<in> set [Some KEY_DOWN, Some ascii_TAB]
               then set_active_layer self focus_first else Inr self) of
           Inl e \<Rightarrow> Inl e
         | Inr self \<Rightarrow>
             (case (if key ev \<in> set [Some KEY_UP, Some SHIFT_TAB]
                    then set_active_layer self focus_last else Inr self) of
                Inl e \<Rightarrow> Inl e
              | Inr self \<Rightarrow> Inr (self, ev)))"

text \<open>
  \<^verbatim>\<open>tgt.on_event(ev)\<close> for a target given by its identity. \<^verbatim>\<open>Layer.on_event\<close>
  (line 645) does nothing. A control that is under no Layer of the App has no state in
  the model.
\<close>

definition on_event :: "datetime \<Rightarrow> app \<Rightarrow> event \<Rightarrow> ident \<Rightarrow> error + app \<times> event" where
  "on_event now a ev tgt =
     (case tgt of
        AppId \<Rightarrow> App_on_event a ev
      | LayerId l \<Rightarrow> Inr (a, ev)
      | CtrlId c \<Rightarrow>
          (case find_node a tgt of
             Some (NCtrl ctrl) \<Rightarrow> control_on_event now a ev ctrl
           | _ \<Rightarrow> Inl Unmodelled))"

text \<open>
  \<^verbatim>\<open>dispatch_event\<close> (lines 722-727): the event bubbles from its target through the
  parents that \<^verbatim>\<open>get_parent\<close> finds in the tree as it is after each handler.
\<close>

partial_function (option) dispatch_loop ::
  "datetime \<Rightarrow> app \<Rightarrow> ident option \<Rightarrow> event \<Rightarrow> (error + app \<times> event) option" where
  "dispatch_loop now a tgt ev =
     (case tgt of
        None \<Rightarrow> Some (Inr (a, ev))
      | Some t \<Rightarrow>
          if propagating ev then
            (case on_event now a ev t of
               Inl e \<Rightarrow> Some (Inl e)
             | Inr (a', ev') \<Rightarrow> dispatch_loop now a' (get_parent a' t) (ev'\<lparr>ev_last := Some t\<rparr>))
          else Some (Inr (a, ev)))"

declare dispatch_loop.simps [code]

definition dispatch_event :: "datetime \<Rightarrow> app \<Rightarrow> event \<Rightarrow> (error + app \<times> event) option" where
  "dispatch_event now self ev = dispatch_loop now self (target ev) ev"

text \<open>
  One turn of \<^verbatim>\<open>run\<close> (lines 706-709) after the repaint: the keystroke \<open>c\<close> is sent to
  the control focused in the active Layer.
\<close>

definition key_press :: "datetime \<Rightarrow> app \<Rightarrow> int \<Rightarrow> (error + app) option" where
  "key_press now self c =
     (case active_layer self of
        Inl e \<Rightarrow> Some (Inl e)
      | Inr l \<Rightarrow>
          (case dispatch_event now self (Event KeyEvent (Some c) (Some (CtrlId (focused l)))) of
             None \<Rightarrow> None
           | Some (Inl e) \<Rightarrow> Some (Inl e)
           | Some (Inr (a, ev)) \<Rightarrow> Some (Inr a)))"

fun key_presses :: "datetime \<Rightarrow> app \<Rightarrow> int list \<Rightarrow> (error + app) option" where
  "key_presses now self [] = Some (Inr self)"
| "key_presses now self (c # cs) =
     (if exit self then Some (Inr self)
      else case key_press now self c of
             None \<Rightarrow> None
           | Some (Inl e) \<Rightarrow> Some (Inl e)
           | Some (Inr a) \<Rightarrow> key_presses now a cs)"

section \<open>Properties of Edit\<close>

lemma slice_to_from: "slice_to s i @ slice_from s i = s"
  by (simp add: slice_to_def slice_from_def)

lemmas edit_key_defs =
  edit_on_event_def key_event_def Event_def stop_def is_enter_def key_defs slice_to_from

text \<open>
  C1. The specification says that Backspace removes the character before the cursor and
  moves the cursor back, for both Backspace codes, and that it does nothing at cursor 0.
  The Backspace branch (line 546) assigns \<^verbatim>\<open>value[:cursor] + value[cursor:]\<close>, which is
  \<^verbatim>\<open>value\<close> again. With the code \<^verbatim>\<open>curses.KEY_BACKSPACE\<close> no other branch runs: the text
  is never changed and only the cursor moves. On \<^verbatim>\<open>Edit("hello")\<close> the result is
  \<^verbatim>\<open>"hello"\<close> with cursor 4, where the specification has \<^verbatim>\<open>"hell"\<close>.
\<close>

theorem C1_backspace_keeps_value:
  "edit_on_event self (key_event KEY_BACKSPACE)
     = Inr (self\<lparr>edit_cursor := max 0 (edit_cursor self - 1)\<rparr>, stop (key_event KEY_BACKSPACE))
   \<and> edit_on_event (Edit_init ''hello'') (key_event KEY_BACKSPACE)
     = Inr (\<lparr>edit_value = ''hello'', edit_cursor = 4\<rparr>, stop (key_event KEY_BACKSPACE))"
proof -
  have general: "edit_on_event s (key_event KEY_BACKSPACE)
     = Inr (s\<lparr>edit_cursor := max 0 (edit_cursor s - 1)\<rparr>, stop (key_event KEY_BACKSPACE))" for s
    by (cases s) (simp add: edit_key_defs)
  show ?thesis by (simp add: general Edit_init_def)
qed

text \<open>
  C6. An Edit whose cursor lies in \<open>[0, len(value)]\<close> keeps it there under every event
  that \<^verbatim>\<open>on_event\<close> handles without raising, whatever the key code; a keystroke of the run
  loop never raises, so the bound holds after any finite sequence of keystrokes.
\<close>

theorem C6_edit_cursor_in_range:
  assumes "edit_inv self"
  shows "(\<forall>ev self' ev'. edit_on_event self ev = Inr (self', ev') \<longrightarrow> edit_inv self')
       \<and> (\<exists>self'. edit_keys self ks = Inr self' \<and> edit_inv self')"
proof -
  have step: "edit_inv s'" if "edit_inv s" "edit_on_event s ev = Inr (s', ev')" for s s' ev ev'
    using that
    by (auto simp: edit_on_event_def edit_inv_def stop_def is_enter_def key_defs
                   slice_to_def slice_from_def Let_def
             split: if_splits option.splits)
  have no_raise: "edit_on_event s (key_event k) \<noteq> Inl e" for s k e
    by (auto simp: edit_on_event_def key_event_def Event_def stop_def is_enter_def Let_def key_defs
             split: if_splits option.splits)
  have total: "\<exists>s' ev'. edit_on_event s (key_event k) = Inr (s', ev')" for s k
    using no_raise[of s k] by (cases "edit_on_event s (key_event k)") auto
  have run: "edit_inv s \<Longrightarrow> \<exists>s'. edit_keys s ks = Inr s' \<and> edit_inv s'" for s
  proof (induction ks arbitrary: s)
    case Nil
    then show ?case by simp
  next
    case (Cons k ks)
    obtain s1 ev1 where s1: "edit_on_event s (key_event k) = Inr (s1, ev1)"
      using total by blast
    have "edit_inv s1" using step[OF Cons.prems s1] .
    from Cons.IH[OF this] show ?case by (simp add: s1)
  qed
  show ?thesis using step[OF assms] run[OF assms] by blast
qed

theorem C6_edit_cursor_in_range_witness:
  "edit_inv (Edit_init ''hello'')
   \<and> (\<exists>self'. edit_keys (Edit_init ''hello'') [KEY_BACKSPACE, 33, ascii_DEL, KEY_LEFT, CTRL_E]
                 = Inr self' \<and> edit_inv self')"
proof -
  have h: "edit_inv (Edit_init ''hello'')" by (simp add: edit_inv_def Edit_init_def)
  show ?thesis using h C6_edit_cursor_in_range[OF h] by blast
qed

text \<open>
  C10. \<^verbatim>\<open>ALT_BS\<close> and \<^verbatim>\<open>curses.ascii.DEL\<close> are the same code, 127, so one such keystroke
  passes the Backspace test and then the Delete test: the cursor steps back (not below
  0) and the character at the new cursor is cut out. With the cursor inside the text and
  above 0 that is the character before the old cursor; at cursor 0 it is the first
  character, and the cursor stays 0.
\<close>

theorem C10_key_127_runs_both_branches:
  "ALT_BS = ascii_DEL
   \<and> edit_on_event self (key_event ALT_BS)
       = Inr (self\<lparr>edit_value := slice_to (edit_value self) (max 0 (edit_cursor self - 1))
                                   @ slice_from (edit_value self) (max 0 (edit_cursor self - 1) + 1),
                    edit_cursor := max 0 (edit_cursor self - 1)\<rparr>,
              stop (key_event ALT_BS))
   \<and> (0 < edit_cursor self \<and> edit_cursor self \<le> int (length (edit_value self)) \<longrightarrow>
        edit_on_event self (key_event ALT_BS)
          = Inr (\<lparr>edit_value = take (nat (edit_cursor self) - 1) (edit_value self)
                                @ drop (nat (edit_cursor self)) (edit_value self),
                   edit_cursor = edit_cursor self - 1\<rparr>,
                 stop (key_event ALT_BS)))
   \<and> (edit_cursor self = 0 \<longrightarrow>
        edit_on_event self (key_event ALT_BS)
          = Inr (\<lparr>edit_value = drop 1 (edit_value self), edit_cursor = 0\<rparr>,
                 stop (key_event ALT_BS)))"
proof -
  obtain v c where self: "self = \<lparr>edit_value = v, edit_cursor = c\<rparr>" by (cases self) auto
  have both: "edit_on_event self (key_event ALT_BS)
       = Inr (self\<lparr>edit_value := slice_to v (max 0 (c - 1)) @ slice_from v (max 0 (c - 1) + 1),
                    edit_cursor := max 0 (c - 1)\<rparr>,
              stop (key_event ALT_BS))"
    unfolding self by (simp add: edit_key_defs)
  have inside: "slice_to v (max 0 (c - 1)) @ slice_from v (max 0 (c - 1) + 1)
                  = take (nat c - 1) v @ drop (nat c) v" if "0 < c"
    using that by (simp add: slice_to_def slice_from_def nat_diff_distrib')
  have at0: "slice_to v (max 0 (c - 1)) @ slice_from v (max 0 (c - 1) + 1) = drop 1 v" if "c = 0"
    using that by (simp add: slice_to_def slice_from_def)
  have k: "ALT_BS = ascii_DEL" by (simp add: key_defs)
  have p1: "edit_on_event self (key_event ALT_BS)
       = Inr (self\<lparr>edit_value := slice_to (edit_value self) (max 0 (edit_cursor self - 1))
                                   @ slice_from (edit_value self) (max 0 (edit_cursor self - 1) + 1),
                    edit_cursor := max 0 (edit_cursor self - 1)\<rparr>,
              stop (key_event ALT_BS))"
    using both by (simp add: self)
  have p2: "edit_on_event self (key_event ALT_BS)
          = Inr (\<lparr>edit_value = take (nat (edit_cursor self) - 1) (edit_value self)
                                @ drop (nat (edit_cursor self)) (edit_value self),
                   edit_cursor = edit_cursor self - 1\<rparr>,
                 stop (key_event ALT_BS))" if "0 < edit_cursor self"
    using that inside both by (simp add: self)
  have p3: "edit_on_event self (key_event ALT_BS)
          = Inr (\<lparr>edit_value = drop 1 (edit_value self), edit_cursor = 0\<rparr>,
                 stop (key_event ALT_BS))" if "edit_cursor self = 0"
    using that at0 both by (simp add: self)
  show ?thesis using k p1 p2 p3 by blast
qed

theorem C10_key_127_runs_both_branches_witness:
  "edit_on_event \<lparr>edit_value = ''hello'', edit_cursor = 5\<rparr> (key_event ALT_BS)
     = Inr (\<lparr>edit_value = ''hell'', edit_cursor = 4\<rparr>, stop (key_event ALT_BS))
   \<and> edit_on_event \<lparr>edit_value = ''hello'', edit_cursor = 0\<rparr> (key_event ALT_BS)
     = Inr (\<lparr>edit_value = ''ello'', edit_cursor = 0\<rparr>, stop (key_event ALT_BS))"
proof -
  have a: "edit_on_event \<lparr>edit_value = ''hello'', edit_cursor = 5\<rparr> (key_event ALT_BS)
     = Inr (\<lparr>edit_value = ''hell'', edit_cursor = 4\<rparr>, stop (key_event ALT_BS))"
    using C10_key_127_runs_both_branches[of "\<lparr>edit_value = ''hello'', edit_cursor = 5\<rparr>"]
    by (simp add: slice_to_def slice_from_def key_defs)
  have b: "edit_on_event \<lparr>edit_value = ''hello'', edit_cursor = 0\<rparr> (key_event ALT_BS)
     = Inr (\<lparr>edit_value = ''ello'', edit_cursor = 0\<rparr>, stop (key_event ALT_BS))"
    using C10_key_127_runs_both_branches[of "\<lparr>edit_value = ''hello'', edit_cursor = 0\<rparr>"]
    by (simp add: slice_to_def slice_from_def key_defs)
  show ?thesis using a b by simp
qed

section \<open>Properties of SelectList\<close>

lemmas select_list_defs =
  select_list_on_event_def SelectList_init_def stop_def key_event_def Event_def key_defs

lemma select_list_inv_init:
  "0 \<le> i \<Longrightarrow> i < int (length cs) \<Longrightarrow> 1 \<le> h \<Longrightarrow> select_list_inv (SelectList_init cs i w h)"
  by (auto simp: select_list_inv_def SelectList_init_def)

lemma select_list_inv_step:
  "select_list_inv self \<Longrightarrow> select_list_inv (fst (select_list_on_event self ev))"
  by (auto simp: select_list_on_event_def select_list_inv_def stop_def Let_def)

lemma select_list_inv_keys:
  "select_list_inv self \<Longrightarrow> select_list_inv (select_list_keys self ks)"
  by (induction ks arbitrary: self) (auto simp: select_list_inv_step)

text \<open>
  C3. As stated, for every window height, the claim fails: with a height of 0 the
  invariant asks for \<open>index \<le> scroll_offset - 1\<close> and \<open>scroll_offset \<le> index\<close> at once.
  \<^verbatim>\<open>SelectList(["a"], 0, height=0)\<close> is built with index 0 and scroll offset 0.
\<close>

theorem C3_height_zero_counterexample:
  "0 \<le> (0::int) \<and> (0::int) < int (length [''a''])
   \<and> \<not> select_list_inv (SelectList_init [''a''] 0 30 0)"
  by (simp add: select_list_inv_def SelectList_init_def)

text \<open>
  C3, amended. For a SelectList built with a window height of at least 1 and an index
  inside the choices, the invariant holds after construction, every event handled keeps
  it, and so it holds after any finite sequence of keystrokes.
\<close>

theorem C3_select_list_invariant:
  assumes "0 \<le> i" and "i < int (length cs)" and "1 \<le> h"
  shows "select_list_inv (SelectList_init cs i w h)
       \<and> (\<forall>self ev. select_list_inv self \<longrightarrow> select_list_inv (fst (select_list_on_event self ev)))
       \<and> select_list_inv (select_list_keys (SelectList_init cs i w h) ks)"
  using select_list_inv_init[OF assms] select_list_inv_step select_list_inv_keys by blast

theorem C3_select_list_invariant_witness:
  "select_list_inv (SelectList_init [''a'', ''b'', ''c''] 0 30 2)
   \<and> select_list_inv (select_list_keys (SelectList_init [''a'', ''b'', ''c''] 0 30 2)
                        [KEY_DOWN, KEY_DOWN, KEY_UP])"
  using C3_select_list_invariant[of 0 "[''a'', ''b'', ''c'']" 2 30 "[KEY_DOWN, KEY_DOWN, KEY_UP]"]
  by simp

text \<open>
  C8. A Down keystroke adds one to the index when it is below \<open>N - 1\<close> and changes nothing
  otherwise; an Up keystroke subtracts one when the index is above 0 and changes nothing
  otherwise. When the index was inside the window, it is inside the window afterwards,
  and no other offset that shows the new index is nearer to the old offset. The scenario
  of section 8: three choices, height 2, Down twice gives index 2 and offset 1; a third
  Down changes nothing.
\<close>

theorem C8_select_list_up_down:
  fixes self :: select_list
  defines "d \<equiv> fst (select_list_on_event self (key_event KEY_DOWN))"
      and "u \<equiv> fst (select_list_on_event self (key_event KEY_UP))"
      and "off \<equiv> sl_scroll_offset self"
  shows "(sl_index self < int (length (sl_choices self)) - 1 \<longrightarrow> sl_index d = sl_index self + 1)
       \<and> (\<not> sl_index self < int (length (sl_choices self)) - 1 \<longrightarrow> d = self)
       \<and> (0 < sl_index self \<longrightarrow> sl_index u = sl_index self - 1)
       \<and> (\<not> 0 < sl_index self \<longrightarrow> u = self)
       \<and> sl_choices d = sl_choices self \<and> sl_height d = sl_height self
       \<and> sl_choices u = sl_choices self \<and> sl_height u = sl_height self
       \<and> (in_window self off \<longrightarrow>
            in_window d (sl_scroll_offset d)
          \<and> (\<forall>s. in_window d s \<longrightarrow> \<bar>sl_scroll_offset d - off\<bar> \<le> \<bar>s - off\<bar>)
          \<and> in_window u (sl_scroll_offset u)
          \<and> (\<forall>s. in_window u s \<longrightarrow> \<bar>sl_scroll_offset u - off\<bar> \<le> \<bar>s - off\<bar>))
       \<and> select_list_keys (SelectList_init [''a'', ''b'', ''c''] 0 30 2) [KEY_DOWN, KEY_DOWN]
            = \<lparr>sl_choices = [''a'', ''b'', ''c''], sl_index = 2, sl_width = 30, sl_height = 2,
               sl_scroll_offset = 1\<rparr>
       \<and> select_list_keys (SelectList_init [''a'', ''b'', ''c''] 0 30 2) [KEY_DOWN, KEY_DOWN, KEY_DOWN]
            = select_list_keys (SelectList_init [''a'', ''b'', ''c''] 0 30 2) [KEY_DOWN, KEY_DOWN]"
proof -
  obtain cs i w h so where self: "self = \<lparr>sl_choices = cs, sl_index = i, sl_width = w, sl_height = h, sl_scroll_offset = so\<rparr>"
    by (cases self) auto
  have d: "d = (if i < int (length cs) - 1
                then self\<lparr>sl_index := i + 1, sl_scroll_offset := max so (i + 1 - h + 1)\<rparr> else self)"
    by (simp add: d_def self select_list_defs)
  have u: "u = (if 0 < i then self\<lparr>sl_index := i - 1, sl_scroll_offset := min so (i - 1)\<rparr> else self)"
    by (simp add: u_def self select_list_defs)
  have moves: "(sl_index self < int (length (sl_choices self)) - 1 \<longrightarrow> sl_index d = sl_index self + 1)
       \<and> (\<not> sl_index self < int (length (sl_choices self)) - 1 \<longrightarrow> d = self)
       \<and> (0 < sl_index self \<longrightarrow> sl_index u = sl_index self - 1)
       \<and> (\<not> 0 < sl_index self \<longrightarrow> u = self)
       \<and> sl_choices d = sl_choices self \<and> sl_height d = sl_height self
       \<and> sl_choices u = sl_choices self \<and> sl_height u = sl_height self"
    by (simp add: d u self)
  have win_d: "in_window d (sl_scroll_offset d)
          \<and> (\<forall>s. in_window d s \<longrightarrow> \<bar>sl_scroll_offset d - off\<bar> \<le> \<bar>s - off\<bar>)" if "in_window self off"
    using that by (auto simp: d self in_window_def off_def)
  have win_u: "in_window u (sl_scroll_offset u)
          \<and> (\<forall>s. in_window u s \<longrightarrow> \<bar>sl_scroll_offset u - off\<bar> \<le> \<bar>s - off\<bar>)" if "in_window self off"
    using that by (auto simp: u self in_window_def off_def)
  have sc1: "select_list_keys (SelectList_init [''a'', ''b'', ''c''] 0 30 2) [KEY_DOWN, KEY_DOWN]
            = \<lparr>sl_choices = [''a'', ''b'', ''c''], sl_index = 2, sl_width = 30, sl_height = 2,
               sl_scroll_offset = 1\<rparr>"
    by (simp add: select_list_defs)
  have sc2: "select_list_keys (SelectList_init [''a'', ''b'', ''c''] 0 30 2) [KEY_DOWN, KEY_DOWN, KEY_DOWN]
            = select_list_keys (SelectList_init [''a'', ''b'', ''c''] 0 30 2) [KEY_DOWN, KEY_DOWN]"
    by (simp add: select_list_defs)
  show ?thesis using moves win_d win_u sc1 sc2 by blast
qed

theorem C8_select_list_up_down_witness:
  "in_window (SelectList_init [''a'', ''b'', ''c''] 1 30 2) 1
   \<and> sl_index (fst (select_list_on_event (SelectList_init [''a'', ''b'', ''c''] 1 30 2) (key_event KEY_DOWN))) = 2
   \<and> in_window (fst (select_list_on_event (SelectList_init [''a'', ''b'', ''c''] 1 30 2) (key_event KEY_DOWN)))
        (sl_scroll_offset (fst (select_list_on_event (SelectList_init [''a'', ''b'', ''c''] 1 30 2) (key_event KEY_DOWN))))
   \<and> sl_index (fst (select_list_on_event (SelectList_init [''a'', ''b'', ''c''] 1 30 2) (key_event KEY_UP))) = 0"
proof -
  have h: "in_window (SelectList_init [''a'', ''b'', ''c''] 1 30 2) 1"
    by (simp add: in_window_def SelectList_init_def)
  have o: "sl_scroll_offset (SelectList_init [''a'', ''b'', ''c''] 1 30 2) = 1"
    and i: "sl_index (SelectList_init [''a'', ''b'', ''c''] 1 30 2) = 1"
    and n: "sl_choices (SelectList_init [''a'', ''b'', ''c''] 1 30 2) = [''a'', ''b'', ''c'']"
    by (simp_all add: SelectList_init_def)
  show ?thesis
    using h C8_select_list_up_down[of "SelectList_init [''a'', ''b'', ''c''] 1 30 2"]
    by (simp add: o i n)
qed

section \<open>Properties of SelectDate\<close>


lemmas calendar_defs =
  date_def ymd2ord_def days_before_year_def days_before_month_def days_in_month_def
  is_leap_def upt_rec


lemma date_ordinals:
  "dt_ordinal (date 1 1 1) = 1" "dt_ordinal (date 9999 12 31) = MAXORDINAL"
  "dt_ordinal (date 2024 1 15) = 738900"
  by (simp_all add: calendar_defs MAXORDINAL_def)





section \<open>Properties of Horizontal\<close>

lemma adj_rect_0: "adj_rect r 0 0 0 0 = r" by (simp add: adj_rect_def sub_rect_def)
lemma adj_rect_add: "adj_rect (adj_rect r a 0 0 0) b 0 0 0 = adj_rect r (a + b) 0 0 0"
  by (simp add: adj_rect_def sub_rect_def algebra_simps)

lemma horizontal_sizes_fixed:
  "list_all2 (\<lambda>v wh. \<forall>r. v r = Inr wh) views whs \<Longrightarrow> horizontal_sizes views rect = Inr whs"
  by (induction views whs arbitrary: rect rule: list_all2_induct) auto

lemma foldl_max_Max: "foldl max (h::int) hs = Max (set (h # hs))"
proof -
  have "(\<lambda>x s. max s x) = (max :: int \<Rightarrow> int \<Rightarrow> int)" by (intro ext) (rule max.commute)
  then have "foldl max h hs = fold max hs h" by (simp add: foldl_conv_fold)
  then show ?thesis using Max.set_eq_fold[of h hs] by simp
qed

lemma Horizontal_disp_fixed:
  "list_all2 (\<lambda>v wh. \<forall>r. v r = Inr wh) views whs \<Longrightarrow>
   Horizontal_disp views m rect =
     Inr (map (\<lambda>i. adj_rect rect (sum_list (map (\<lambda>wh. fst wh + m) (take i whs))) 0 0 0) [0..<length views])"
proof (induction views whs arbitrary: rect rule: list_all2_induct)
  case Nil
  then show ?case by simp
next
  case (Cons v vs wh whs)
  have "[0..<length (v # vs)] = 0 # map Suc [0..<length vs]"
    by (simp add: upt_conv_Cons map_Suc_upt del: upt_Suc)
  then show ?case using Cons by (simp add: adj_rect_0 adj_rect_add o_def del: upt_Suc)
qed

text \<open>
  C9. For a Horizontal of at least one child whose measured sizes \<open>(w\<^sub>i, h\<^sub>i)\<close> do not depend
  on the rectangle, and margin \<open>m\<close>: \<^verbatim>\<open>size\<close> returns the width
  \<open>w\<^sub>1 + ... + w\<^sub>n + m (n - 1)\<close> (and the greatest height), and \<^verbatim>\<open>disp\<close> hands child \<open>i\<close> a
  rectangle whose origin is the parent's, moved right by the sum of \<open>w\<^sub>j + m\<close> over the
  children before it.
\<close>

theorem C9_horizontal_layout:
  assumes "views \<noteq> []" and "list_all2 (\<lambda>v wh. \<forall>r. v r = Inr wh) views whs"
  shows "Horizontal_size views m rect =
           Inr (sum_list (map fst whs) + m * (int (length views) - 1), Max (set (map snd whs)))
       \<and> (\<exists>rs. Horizontal_disp views m rect = Inr rs \<and> length rs = length views
            \<and> (\<forall>i < length views.
                  rect_x (rs ! i) = rect_x rect + (\<Sum>j < i. fst (whs ! j) + m)
                \<and> rect_y (rs ! i) = rect_y rect))"
proof -
  have len: "length whs = length views" using assms(2) by (simp add: list_all2_lengthD)
  obtain wh whs' where whs: "whs = wh # whs'" using assms len by (cases whs) auto
  have s: "Horizontal_size views m rect =
           Inr (sum_list (map fst whs) + m * (int (length views) - 1), Max (set (map snd whs)))"
    using len by (auto simp: Horizontal_size_def horizontal_sizes_fixed[OF assms(2)] whs foldl_max_Max max_def)
  have sums: "(\<Sum>j < i. fst (whs ! j) + m) = sum_list (map (\<lambda>wh. fst wh + m) (take i whs))" if "i < length views" for i
  proof -
    have "sum_list (map (\<lambda>wh. fst wh + m) (take i whs)) = (\<Sum>j = 0..<length (take i whs). fst (take i whs ! j) + m)"
      by (simp add: sum_list_sum_nth)
    also have "\<dots> = (\<Sum>j < i. fst (whs ! j) + m)" using that len by (simp add: atLeast0LessThan min_def)
    finally show ?thesis by simp
  qed
  show ?thesis using s sums
    by (simp add: Horizontal_disp_fixed[OF assms(2)] adj_rect_def sub_rect_def)
qed


theorem C9_horizontal_layout_witness:
  "Horizontal_size [Display_size ''ab'' 0, Display_size ''cde'' 0] 1
       \<lparr>rect_x = 0, rect_y = 0, rect_w = 80, rect_h = 24\<rparr> = Inr (6, 1)
   \<and> (\<exists>rs. Horizontal_disp [Display_size ''ab'' 0, Display_size ''cde'' 0] 1
               \<lparr>rect_x = 0, rect_y = 0, rect_w = 80, rect_h = 24\<rparr> = Inr rs
          \<and> length rs = 2 \<and> rect_x (rs ! 0) = 0 \<and> rect_x (rs ! 1) = 3)"
proof -
  let ?views = "[Display_size ''ab'' 0, Display_size ''cde'' 0]"
  let ?r = "\<lparr>rect_x = 0, rect_y = 0, rect_w = 80, rect_h = 24\<rparr>"
  let ?whs = "[(2, 1), (3, 1)] :: (int \<times> int) list"
  have h1: "?views \<noteq> []" by simp
  have h2: "list_all2 (\<lambda>v wh. \<forall>r. v r = Inr wh) ?views ?whs"
    by (simp add: Display_size_def)
  note t = C9_horizontal_layout[OF h1 h2, of 1 ?r]
  have size: "Horizontal_size ?views 1 ?r = Inr (6, 1)" using t[THEN conjunct1] by simp
  from t[THEN conjunct2] obtain rs where ex:
    "Horizontal_disp ?views 1 ?r = Inr rs \<and> length rs = length ?views
     \<and> (\<forall>i<length ?views. rect_x (rs ! i) = rect_x ?r + (\<Sum>j<i. fst (?whs ! j) + 1)
               \<and> rect_y (rs ! i) = rect_y ?r)" ..
  note rs = ex[THEN conjunct1] ex[THEN conjunct2, THEN conjunct1]
  note at = ex[THEN conjunct2, THEN conjunct2]
  have len2: "length rs = 2" using rs(2) by simp
  have x0: "rect_x (rs ! 0) = 0" using at[rule_format, of 0] by simp
  have x1: "rect_x (rs ! 1) = 3" using at[rule_format, of 1] by (simp add: lessThan_Suc)
  show ?thesis using size rs(1) len2 x0 x1 by blast
qed

section \<open>The shape of the walk\<close>

lemma object_tree_loop_single:
  "object_tree_loop [n] =
     map (\<lambda>child. (Some n, child)) (node_children n) @ object_tree_loop (node_children n)"
  by simp

lemma object_tree_loop_concat:
  "object_tree_loop ns = concat (map (\<lambda>n. object_tree_loop [n]) ns)"
proof (induction ns)
  case Nil
  then show ?case by simp
next
  case (Cons n ns)
  have "object_tree_loop (n # ns) = object_tree_loop ([n] @ ns)" by simp
  also have "\<dots> = object_tree_loop [n] @ object_tree_loop ns"
    by (rule object_tree_loop_append)
  finally show ?case using Cons by simp
qed

definition nodes_of :: "node \<Rightarrow> node list" where
  "nodes_of n = map snd (object_tree n)"

lemma set_loop_children:
  "snd ` set (object_tree_loop ns) = (\<Union>n \<in> set ns. snd ` set (object_tree_loop [n]))"
  by (subst object_tree_loop_concat) auto

lemma set_nodes_of_loop: "set (nodes_of n) = insert n (snd ` set (object_tree_loop [n]))"
  by (simp add: nodes_of_def object_tree_def del: object_tree_loop.simps)

lemma set_nodes_of:
  "set (nodes_of n) = insert n (\<Union>c \<in> set (node_children n). set (nodes_of c))"
proof -
  have "snd ` set (object_tree_loop [n])
          = set (node_children n) \<union> snd ` set (object_tree_loop (node_children n))"
    by (simp add: image_Un image_image)
  also have "\<dots> = (\<Union>c \<in> set (node_children n). insert c (snd ` set (object_tree_loop [c])))"
    by (subst set_loop_children) auto
  also have "\<dots> = (\<Union>c \<in> set (node_children n). set (nodes_of c))"
    by (simp only: set_nodes_of_loop)
  finally show ?thesis
    by (simp only: set_nodes_of_loop)
qed

lemma node_children_smaller: "c \<in> set (node_children n) \<Longrightarrow> node_size c < node_size n"
proof -
  assume "c \<in> set (node_children n)"
  then have "node_size c \<le> sum_list (map node_size (node_children n))"
    by (simp add: member_le_sum_list)
  then show ?thesis using node_children_size[of n] by simp
qed

lemma node_induct [case_names node]:
  assumes "\<And>n. (\<And>c. c \<in> set (node_children n) \<Longrightarrow> P c) \<Longrightarrow> P n"
  shows "P n"
proof (induction n rule: measure_induct_rule[of node_size])
  case (less n)
  show ?case by (rule assms) (simp add: less node_children_smaller)
qed

lemma nodes_of_self: "n \<in> set (nodes_of n)"
  by (subst set_nodes_of) simp

lemma nodes_of_child: "c \<in> set (node_children n) \<Longrightarrow> set (nodes_of c) \<subseteq> set (nodes_of n)"
  by (subst (2) set_nodes_of) auto

lemma nodes_of_trans: "m \<in> set (nodes_of n) \<Longrightarrow> set (nodes_of m) \<subseteq> set (nodes_of n)"
proof (induction n rule: node_induct)
  case (node n)
  from node.prems consider "m = n" | c where "c \<in> set (node_children n)" "m \<in> set (nodes_of c)"
    by (subst (asm) set_nodes_of) auto
  then show ?case
  proof cases
    case 1
    then show ?thesis by simp
  next
    case 2
    then show ?thesis using node.IH[OF 2] nodes_of_child[OF 2(1)] by blast
  qed
qed

lemma loop_pair_child:
  "(Some p, c) \<in> set (object_tree_loop stack) \<Longrightarrow> c \<in> set (node_children p)"
  by (induction stack rule: object_tree_loop.induct) auto

lemma loop_pair_parent:
  "(q, c) \<in> set (object_tree_loop stack) \<Longrightarrow> \<exists>p. q = Some p \<and> (p \<in> set stack \<or> p \<in> snd ` set (object_tree_loop stack))"
proof (induction stack rule: object_tree_loop.induct)
  case 1
  then show ?case by simp
next
  case (2 parent stack)
  from 2(2) consider "q = Some parent" | "(q, c) \<in> set (object_tree_loop (node_children parent @ stack))"
    by auto
  then show ?case
  proof cases
    case 1
    then show ?thesis by simp
  next
    case 2
    from "2.IH"[OF this] obtain p where p: "q = Some p"
      "p \<in> set (node_children parent @ stack) \<or> p \<in> snd ` set (object_tree_loop (node_children parent @ stack))"
      by blast
    then show ?thesis by (auto simp: image_Un image_image)
  qed
qed

text \<open>controls under a control, in the order of the walk\<close>

fun the_ctrl :: "node \<Rightarrow> control option" where
  "the_ctrl (NCtrl c) = Some c"
| "the_ctrl (NLayer l) = None"
| "the_ctrl (NApp a) = None"

definition controls_of :: "control \<Rightarrow> control list" where
  "controls_of c = List.map_filter the_ctrl (nodes_of (NCtrl c))"

definition layer_inv :: "layer \<Rightarrow> bool" where
  "layer_inv l =
     (focused l = ctrl_id (root l)
      \<or> (\<exists>c \<in> set (controls_of (root l)). ctrl_id c = focused l \<and> can_focus c))"

lemma loop_ctrl_nodes:
  "\<forall>n \<in> set stack. \<exists>c. n = NCtrl c \<Longrightarrow> \<forall>n \<in> snd ` set (object_tree_loop stack). \<exists>c. n = NCtrl c"
proof (induction stack rule: object_tree_loop.induct)
  case 1
  then show ?case by simp
next
  case (2 parent stack)
  obtain c where c: "parent = NCtrl c" using 2(2) by auto
  have "\<forall>n \<in> set (node_children parent @ stack). \<exists>c. n = NCtrl c"
    using 2(2) by (auto simp: c)
  from "2.IH"[OF this] show ?case by (auto simp: c image_Un image_image)
qed

lemma nodes_of_ctrl: "nodes_of (NCtrl c) = map NCtrl (controls_of c)"
proof -
  have "\<forall>n \<in> set (nodes_of (NCtrl c)). \<exists>d. n = NCtrl d"
    using loop_ctrl_nodes[of "[NCtrl c]"] by (auto simp: set_nodes_of_loop simp del: object_tree_loop.simps)
  then have "map NCtrl (List.map_filter the_ctrl ns) = ns" if "ns = nodes_of (NCtrl c)" for ns
    unfolding that[symmetric]
    by (induction ns) (auto simp: List.map_filter_simps)
  then show ?thesis by (simp add: controls_of_def)
qed

lemma controls_of_iff: "d \<in> set (controls_of c) \<longleftrightarrow> NCtrl d \<in> set (nodes_of (NCtrl c))"
  by (auto simp: nodes_of_ctrl)

lemma controls_of_self: "c \<in> set (controls_of c)"
  by (simp add: controls_of_iff nodes_of_self)

lemma controls_of_child:
  "ch \<in> set (children c) \<Longrightarrow> set (controls_of ch) \<subseteq> set (controls_of c)"
  using nodes_of_child[of "NCtrl ch" "NCtrl c"] by (auto simp: controls_of_iff)

lemma controls_of_trans:
  "d \<in> set (controls_of c) \<Longrightarrow> set (controls_of d) \<subseteq> set (controls_of c)"
  using nodes_of_trans[of "NCtrl d" "NCtrl c"] by (auto simp: controls_of_iff)

lemma controls_of_rec:
  "controls_of c = c # children c @ concat (map (\<lambda>ch. tl (controls_of ch)) (children c))"
proof -
  have tl: "map snd (object_tree_loop [n]) = tl (nodes_of n)" for n
    by (simp add: nodes_of_def object_tree_def del: object_tree_loop.simps)
  have "nodes_of (NCtrl c) = NCtrl c # map snd (object_tree_loop [NCtrl c])"
    by (simp add: nodes_of_def object_tree_def del: object_tree_loop.simps)
  also have "map snd (object_tree_loop [NCtrl c])
               = map NCtrl (children c) @ map snd (object_tree_loop (map NCtrl (children c)))"
    by (simp add: comp_def)
  also have "map snd (object_tree_loop (map NCtrl (children c)))
               = concat (map (\<lambda>ch. tl (nodes_of (NCtrl ch))) (children c))"
    by (subst object_tree_loop_concat) (simp add: map_concat comp_def tl del: object_tree_loop.simps)
  finally have "map NCtrl (controls_of c)
      = map NCtrl (c # children c @ concat (map (\<lambda>ch. tl (controls_of ch)) (children c)))"
    by (simp add: nodes_of_ctrl map_concat comp_def map_tl)
  moreover have "inj NCtrl" by (simp add: inj_on_def)
  ultimately show ?thesis using inj_map_eq_map by blast
qed

lemma focus_result:
  "focus l c = (l', ok) \<Longrightarrow>
     (ok \<longrightarrow> (\<exists>d \<in> set (controls_of c). can_focus d \<and> l' = l\<lparr>focused := ctrl_id d\<rparr>))
   \<and> (\<not> ok \<longrightarrow> l' = l)"
  "focus_children l cs = (l', ok) \<Longrightarrow>
     (ok \<longrightarrow> (\<exists>c \<in> set cs. \<exists>d \<in> set (controls_of c). can_focus d \<and> l' = l\<lparr>focused := ctrl_id d\<rparr>))
   \<and> (\<not> ok \<longrightarrow> l' = l)"
proof (induction l c and l cs arbitrary: l' ok and l' ok rule: focus_focus_children.induct)
  case (1 self ctrl)
  show ?case
  proof (cases "can_focus ctrl")
    case True
    then show ?thesis using 1(2) controls_of_self[of ctrl] by auto
  next
    case False
    then have "focus_children self (children ctrl) = (l', ok)" using 1(2) by simp
    from 1(1)[OF False this] show ?thesis using controls_of_child[of _ ctrl] by blast
  qed
next
  case (2 self)
  then show ?case by simp
next
  case (3 self child rest)
  obtain s1 ok1 where f: "focus self child = (s1, ok1)" by (cases "focus self child")
  note ih1 = 3(1)[OF f]
  show ?case
  proof (cases ok1)
    case True
    then have "l' = s1" "ok" using 3(3) f by auto
    then show ?thesis using ih1 True by auto
  next
    case False
    then have s1: "s1 = self" using ih1 by simp
    have "focus_children s1 rest = (l', ok)" using 3(3) f False by simp
    from 3(2)[OF f[symmetric] False this] show ?thesis using s1 by auto
  qed
qed

declare focus.simps [simp del]

lemma find_Some_in: "find P xs = Some x \<Longrightarrow> x \<in> set xs \<and> P x"
  by (induction xs) (auto split: if_splits)

lemma find_app: "find P (xs @ ys) = (case find P xs of None \<Rightarrow> find P ys | Some x \<Rightarrow> Some x)"
  by (induction xs) auto

lemma find_snd: "map_option snd (find (\<lambda>(p, c). Q c) xs) = find Q (map snd xs)"
  by (induction xs) auto

lemma find_map_NCtrl: "find node_can_focus (map NCtrl cs) = map_option NCtrl (find can_focus cs)"
  by (induction cs) auto

lemma layer_children_nodes:
  "map snd (object_tree (NLayer l)) = NLayer l # map NCtrl (controls_of (root l))"
proof -
  have "map snd (object_tree (NLayer l)) = NLayer l # NCtrl (root l) # map snd (object_tree_loop [NCtrl (root l)])"
    by (simp add: object_tree_def)
  also have "NCtrl (root l) # map snd (object_tree_loop [NCtrl (root l)]) = nodes_of (NCtrl (root l))"
    by (simp add: nodes_of_def object_tree_def del: object_tree_loop.simps)
  finally show ?thesis by (simp add: nodes_of_ctrl)
qed

lemma focus_focusable: "can_focus d \<Longrightarrow> focus l d = (l\<lparr>focused := ctrl_id d\<rparr>, True)"
  by (simp add: focus.simps)

lemma focus_first_eq:
  "focus_first l = (case find can_focus (controls_of (root l)) of
                      None \<Rightarrow> l | Some d \<Rightarrow> l\<lparr>focused := ctrl_id d\<rparr>)"
proof -
  let ?f = "find (\<lambda>(parent, child). node_can_focus child) (object_tree (NLayer l))"
  have fs: "focus_first l = (case map_option snd ?f of None \<Rightarrow> l | Some child \<Rightarrow> focus_node l child)"
    by (auto simp: focus_first_def split: option.splits)
  have "map_option snd ?f = map_option NCtrl (find can_focus (controls_of (root l)))"
    by (simp add: find_snd layer_children_nodes find_map_NCtrl)
  then show ?thesis
    by (auto simp: fs focus_node_def focus_focusable split: option.splits dest: find_Some_in
            )
qed

lemma focus_last_eq:
  "focus_last l = (case find can_focus (rev (controls_of (root l))) of
                      None \<Rightarrow> l | Some d \<Rightarrow> l\<lparr>focused := ctrl_id d\<rparr>)"
proof -
  let ?f = "find (\<lambda>(parent, child). node_can_focus child) (rev (object_tree (NLayer l)))"
  have fs: "focus_last l = (case map_option snd ?f of None \<Rightarrow> l | Some child \<Rightarrow> focus_node l child)"
    by (auto simp: focus_last_def Let_def split: option.splits)
  have "map snd (rev (object_tree (NLayer l))) = map NCtrl (rev (controls_of (root l))) @ [NLayer l]"
    by (simp add: rev_map[symmetric] layer_children_nodes)
  then have "map_option snd ?f = find node_can_focus (map NCtrl (rev (controls_of (root l))) @ [NLayer l])"
    by (simp add: find_snd)
  also have "\<dots> = map_option NCtrl (find can_focus (rev (controls_of (root l))))"
    by (simp add: find_app find_map_NCtrl split: option.splits)
  finally show ?thesis
    by (auto simp: fs focus_node_def focus_focusable split: option.splits dest: find_Some_in
            )
qed

lemma layer_inv_focused:
  "d \<in> set (controls_of (root l)) \<Longrightarrow> can_focus d \<Longrightarrow> layer_inv (l\<lparr>focused := ctrl_id d\<rparr>)"
  by (auto simp: layer_inv_def)

lemma layer_inv_focus_first: "layer_inv l \<Longrightarrow> layer_inv (focus_first l)"
  by (auto simp: focus_first_eq split: option.splits dest: find_Some_in intro!: layer_inv_focused)

lemma layer_inv_focus_last: "layer_inv l \<Longrightarrow> layer_inv (focus_last l)"
  by (auto simp: focus_last_eq split: option.splits dest!: find_Some_in intro!: layer_inv_focused)

lemma layer_inv_Layer_init: "layer_inv (Layer_init i r)"
  unfolding Layer_init_def by (rule layer_inv_focus_first) (simp add: layer_inv_def)

lemma Layer_init_eq:
  "Layer_init i r = \<lparr>layer_id = i, root = r,
       focused = (case find can_focus (controls_of r) of None \<Rightarrow> ctrl_id r | Some d \<Rightarrow> ctrl_id d)\<rparr>"
  by (simp add: Layer_init_def focus_first_eq split: option.splits)

lemma layer_inv_focus:
  assumes "c \<in> set (controls_of (root l))" "layer_inv l"
  shows "layer_inv (fst (focus l c))"
proof -
  obtain l' ok where f: "focus l c = (l', ok)" by (cases "focus l c")
  show ?thesis
  proof (cases ok)
    case True
    with focus_result(1)[OF f] obtain d where d: "d \<in> set (controls_of c)" "can_focus d"
      "l' = l\<lparr>focused := ctrl_id d\<rparr>" by blast
    have "d \<in> set (controls_of (root l))" using d(1) controls_of_trans[OF assms(1)] by blast
    then show ?thesis using d layer_inv_focused[of d l] by (simp add: f)
  next
    case False
    with focus_result(1)[OF f] show ?thesis using assms(2) by (simp add: f)
  qed
qed

lemma focus_keeps:
  "root (fst (focus l c)) = root l" "layer_id (fst (focus l c)) = layer_id l"
proof -
  obtain l' ok where f: "focus l c = (l', ok)" by (cases "focus l c")
  from focus_result(1)[OF f] show "root (fst (focus l c)) = root l" "layer_id (fst (focus l c)) = layer_id l"
    by (cases ok; auto simp: f)+
qed

section \<open>The walk of an App\<close>

lemma object_tree_layer:
  "object_tree_loop [NLayer l] = (Some (NLayer l), NCtrl (root l)) # object_tree_loop [NCtrl (root l)]"
  by simp

lemma object_tree_app:
  "object_tree (NApp a) =
     (None, NApp a) # map (\<lambda>l. (Some (NApp a), NLayer l)) (layers a)
     @ concat (map (\<lambda>l. (Some (NLayer l), NCtrl (root l)) # object_tree_loop [NCtrl (root l)]) (layers a))"
proof -
  have "object_tree_loop (map NLayer (layers a))
          = concat (map (\<lambda>l. object_tree_loop [NLayer l]) (layers a))"
    by (subst object_tree_loop_concat) (simp add: comp_def del: object_tree_loop.simps)
  then show ?thesis
    by (simp add: object_tree_def comp_def del: object_tree_loop.simps add: object_tree_loop.simps(2)[of "NApp a" "[]"] object_tree_layer)
qed

text \<open>The identities in a walk: what get_parent and find_node look at.\<close>

definition pair_ids :: "node option \<times> node \<Rightarrow> ident option \<times> ident" where
  "pair_ids pc = (map_option ident_of (fst pc), ident_of (snd pc))"

definition skeleton :: "app \<Rightarrow> (ident option \<times> ident) list" where
  "skeleton a = map pair_ids (object_tree (NApp a))"

definition ctrl_skeleton :: "control \<Rightarrow> (ident option \<times> ident) list" where
  "ctrl_skeleton r = map pair_ids (object_tree_loop [NCtrl r])"

lemma skeleton_eq:
  "skeleton a =
     (None, AppId) # map (\<lambda>l. (Some AppId, LayerId (layer_id l))) (layers a)
     @ concat (map (\<lambda>l. (Some (LayerId (layer_id l)), CtrlId (ctrl_id (root l))) # ctrl_skeleton (root l))
                   (layers a))"
  by (simp add: skeleton_def object_tree_app pair_ids_def comp_def map_concat ctrl_skeleton_def
           del: object_tree_loop.simps)

lemma find_pair_ids:
  "map_option pair_ids (find (\<lambda>(parent, child). ident_of child = t) xs)
     = find (\<lambda>(p, c). c = t) (map pair_ids xs)"
  by (induction xs) (auto simp: pair_ids_def)

lemma get_parent_skeleton:
  "get_parent a t = (case find (\<lambda>(p, c). c = t) (skeleton a) of None \<Rightarrow> None | Some (p, c) \<Rightarrow> p)"
proof -
  have "find (\<lambda>(p, c). c = t) (skeleton a)
          = map_option pair_ids (find (\<lambda>(parent, child). ident_of child = t) (object_tree (NApp a)))"
    by (simp add: skeleton_def find_pair_ids)
  then show ?thesis
    by (auto simp: get_parent_def pair_ids_def split: option.splits)
qed

lemma get_parent_cong: "skeleton a = skeleton b \<Longrightarrow> get_parent a t = get_parent b t"
  by (simp add: get_parent_skeleton)

lemma find_ancestor_cong:
  "skeleton a = skeleton b \<Longrightarrow> find_ancestor a x S = find_ancestor b x S"
proof (induction a x S rule: find_ancestor.induct)
  case (1 self set0)
  then show ?case by simp
next
  case (2 self ctrl set0)
  then show ?case by (simp add: get_parent_cong[OF 2(2)])
qed

definition same_trees :: "app \<Rightarrow> app \<Rightarrow> bool" where
  "same_trees a b =
     (map layer_id (layers a) = map layer_id (layers b) \<and> map root (layers a) = map root (layers b))"

lemma map_layers_cong:
  "map layer_id ls = map layer_id ks \<Longrightarrow> map root ls = map root ks \<Longrightarrow>
   map (\<lambda>l. g (layer_id l) (root l)) ls = map (\<lambda>l. g (layer_id l) (root l)) ks"
proof (induction ls arbitrary: ks)
  case Nil
  then show ?case by simp
next
  case (Cons l ls)
  then obtain k ks' where "ks = k # ks'" by (cases ks) auto
  then show ?case using Cons by auto
qed

lemma same_trees_skeleton:
  assumes "same_trees a b"
  shows "skeleton a = skeleton b"
proof -
  note m = map_layers_cong[of "layers a" "layers b"]
  have ids: "map layer_id (layers a) = map layer_id (layers b)"
    and roots: "map root (layers a) = map root (layers b)"
    using assms by (simp_all add: same_trees_def)
  have 1: "map (\<lambda>l. (Some AppId, LayerId (layer_id l))) (layers a)
         = map (\<lambda>l. (Some AppId, LayerId (layer_id l))) (layers b)"
    using m[OF ids roots, of "\<lambda>i r. (Some AppId, LayerId i)"] .
  have 2: "map (\<lambda>l. (Some (LayerId (layer_id l)), CtrlId (ctrl_id (root l))) # ctrl_skeleton (root l)) (layers a)
         = map (\<lambda>l. (Some (LayerId (layer_id l)), CtrlId (ctrl_id (root l))) # ctrl_skeleton (root l)) (layers b)"
    using m[OF ids roots, of "\<lambda>i r. (Some (LayerId i), CtrlId (ctrl_id r)) # ctrl_skeleton r"] .
  show ?thesis by (simp only: skeleton_eq 1 2)
qed

lemma layer_of_cong: "same_trees a b \<Longrightarrow> layer_of a t = layer_of b t"
proof -
  assume s: "same_trees a b"
  have "map (\<lambda>l. LayerId (layer_id l)) (layers a) = map (\<lambda>l. LayerId (layer_id l)) (layers b)"
    using map_layers_cong[of "layers a" "layers b" "\<lambda>i r. LayerId i"] s by (simp add: same_trees_def)
  then show ?thesis
    using find_ancestor_cong[OF same_trees_skeleton[OF s]]
    by (simp add: layer_of_def comp_def del: find_ancestor.simps)
qed

section \<open>State changes that keep the tree\<close>

definition keeps_shape :: "(control \<Rightarrow> control) \<Rightarrow> bool" where
  "keeps_shape f =
     (\<forall>c. ctrl_id (f c) = ctrl_id c \<and> can_focus (f c) = can_focus c \<and> children (f c) = children c)"

lemma keeps_shape_setters:
  "keeps_shape (set_select_list s)" "keeps_shape (set_select_date v)" "keeps_shape (set_edit e)"
  "keeps_shape (set_index j)" "keeps_shape (set_date v)"
  unfolding keeps_shape_def
  by (intro allI, case_tac c, simp_all)+

lemma update_shape:
  assumes "keeps_shape f"
  shows "ctrl_id (update n f c) = ctrl_id c"
    and "can_focus (update n f c) = can_focus c"
    and "children (update n f c) = (if ctrl_id c = n then children c else map (update n f) (children c))"
  using assms unfolding keeps_shape_def by (cases c; simp)+

lemma children_smaller: "ch \<in> set (children c) \<Longrightarrow> size ch < size c"
proof -
  assume "ch \<in> set (children c)"
  then have "Suc (size ch) \<le> sum_list (map (\<lambda>c. Suc (size c)) (children c))"
    using member_le_sum_list[of "Suc (size ch)" "map (\<lambda>c. Suc (size c)) (children c)"] by auto
  then show ?thesis using children_size[of c] by simp
qed

lemma control_induct [case_names control]:
  assumes "\<And>c. (\<And>ch. ch \<in> set (children c) \<Longrightarrow> P ch) \<Longrightarrow> P c"
  shows "P c"
proof (induction c rule: measure_induct_rule[of size])
  case (less c)
  show ?case by (rule assms) (simp add: less children_smaller)
qed

definition ctrl_sig :: "control \<Rightarrow> nat \<times> bool" where
  "ctrl_sig c = (ctrl_id c, can_focus c)"

lemma update_sig:
  assumes f: "keeps_shape f"
  shows "map ctrl_sig (controls_of (update n f c)) = map ctrl_sig (controls_of c)"
proof (induction c rule: control_induct)
  case (control c)
  have sig: "ctrl_sig (update n f x) = ctrl_sig x" for x
    by (simp add: ctrl_sig_def update_shape[OF f])
  have tl_eq: "map ctrl_sig (concat (map (\<lambda>ch. tl (controls_of ch)) cs))
             = concat (map (\<lambda>ch. tl (map ctrl_sig (controls_of ch))) cs)" for cs
    by (simp add: map_concat comp_def map_tl)
  show ?case
  proof (cases "ctrl_id c = n")
    case True
    have "map ctrl_sig (controls_of (update n f c))
        = ctrl_sig (update n f c) # map ctrl_sig (children c)
          @ map ctrl_sig (concat (map (\<lambda>ch. tl (controls_of ch)) (children c)))"
      by (subst controls_of_rec) (simp add: update_shape[OF f] True)
    also have "\<dots> = map ctrl_sig (controls_of c)"
      by (subst (2) controls_of_rec) (simp add: sig)
    finally show ?thesis .
  next
    case False
    have "map ctrl_sig (controls_of (update n f c))
        = ctrl_sig (update n f c) # map ctrl_sig (map (update n f) (children c))
          @ map ctrl_sig (concat (map (\<lambda>ch. tl (controls_of ch)) (map (update n f) (children c))))"
      by (subst controls_of_rec) (simp add: update_shape[OF f] False)
    also have "map ctrl_sig (map (update n f) (children c)) = map ctrl_sig (children c)"
      by (simp add: sig)
    also have "map ctrl_sig (concat (map (\<lambda>ch. tl (controls_of ch)) (map (update n f) (children c))))
             = concat (map (\<lambda>ch. tl (map ctrl_sig (controls_of (update n f ch)))) (children c))"
      by (simp add: map_concat comp_def map_tl)
    also have "\<dots> = concat (map (\<lambda>ch. tl (map ctrl_sig (controls_of ch))) (children c))"
      using control.IH by (simp cong: map_cong)
    finally show ?thesis
      by (subst (2) controls_of_rec) (simp add: sig map_concat comp_def map_tl)
  qed
qed

lemma layer_inv_sig:
  "layer_inv l \<longleftrightarrow>
     (focused l = ctrl_id (root l) \<or> (focused l, True) \<in> set (map ctrl_sig (controls_of (root l))))"
  by (auto simp: layer_inv_def ctrl_sig_def image_iff)

lemma layer_inv_update:
  assumes "keeps_shape f" "layer_inv l"
  shows "layer_inv (l\<lparr>root := update n f (root l)\<rparr>)"
  using assms(2) unfolding layer_inv_sig
  by (simp add: update_sig[OF assms(1)] update_shape[OF assms(1)])

definition app_inv :: "app \<Rightarrow> bool" where
  "app_inv a = (\<forall>l \<in> set (layers a). layer_inv l)"

lemma app_inv_update: "keeps_shape f \<Longrightarrow> app_inv a \<Longrightarrow> app_inv (update_app n f a)"
  by (auto simp: app_inv_def update_app_def layer_inv_update)

lemma app_inv_push: "app_inv a \<Longrightarrow> app_inv (push_layer a c)"
  by (auto simp: app_inv_def push_layer_def layer_inv_Layer_init)

lemma app_inv_pop: "app_inv a \<Longrightarrow> pop_layer a = Inr a' \<Longrightarrow> app_inv a'"
  by (auto simp: app_inv_def pop_layer_def split: if_splits) (meson in_set_butlastD)

lemma app_inv_set_active:
  "app_inv a \<Longrightarrow> (\<And>l. layer_inv l \<Longrightarrow> layer_inv (f l)) \<Longrightarrow> set_active_layer a f = Inr a' \<Longrightarrow> app_inv a'"
  by (auto simp: app_inv_def set_active_layer_def active_layer_def split: if_splits) (meson in_set_butlastD)

lemma app_inv_exit: "app_inv (a\<lparr>exit := b\<rparr>) = app_inv a"
  by (simp add: app_inv_def)

lemma App_on_event_inv:
  assumes "app_inv a" "App_on_event a ev = Inr (a', ev')"
  shows "app_inv a'"
proof -
  define a0 where "a0 = (if key ev \<in> set [Some ascii_ESC] then a\<lparr>exit := True\<rparr> else a)"
  define e0 where "e0 = (if key ev \<in> set [Some ascii_ESC] then stop ev else ev)"
  have a0: "app_inv a0" using assms(1) by (simp add: a0_def app_inv_exit)
  define r1 where "r1 = (if key e0 \<in> set [Some KEY_DOWN, Some ascii_TAB]
                         then set_active_layer a0 focus_first else Inr a0)"
  have unfold: "App_on_event a ev =
      (case r1 of Inl e \<Rightarrow> Inl e
       | Inr s \<Rightarrow> (case (if key e0 \<in> set [Some KEY_UP, Some SHIFT_TAB]
                          then set_active_layer s focus_last else Inr s) of
                     Inl e \<Rightarrow> Inl e | Inr s' \<Rightarrow> Inr (s', e0)))"
    by (cases "key ev \<in> set [Some ascii_ESC]")
       (simp_all only: App_on_event_def a0_def e0_def r1_def Let_def if_True if_False prod.case)
  from assms(2) obtain a1 where r1: "r1 = Inr a1"
    and r2: "(if key e0 \<in> set [Some KEY_UP, Some SHIFT_TAB]
              then set_active_layer a1 focus_last else Inr a1) = Inr a'"
    unfolding unfold by (auto split: sum.splits)
  have a1: "app_inv a1"
    using r1 a0 app_inv_set_active[OF a0 layer_inv_focus_first]
    by (auto simp: r1_def split: if_splits)
  show ?thesis
    using r2 a1 app_inv_set_active[OF a1 layer_inv_focus_last]
    by (auto split: if_splits)
qed

declare navigate.simps [simp del]

section \<open>One identity, one object\<close>

text \<open>
  A number stands for the identity of one Python object. The datatype of controls can
  also write down two different controls, or two Layers, under one number; no state of the
  program looks like that, since \<^verbatim>\<open>push_layer\<close> creates a new Layer object each time and an
  object has one state. One control at several places of the tree is allowed.
\<close>

definition all_controls :: "app \<Rightarrow> control list" where
  "all_controls a = concat (map (\<lambda>l. controls_of (root l)) (layers a))"

definition well_identified :: "app \<Rightarrow> bool" where
  "well_identified a =
     (distinct (map layer_id (layers a))
      \<and> (\<forall>c \<in> set (all_controls a). \<forall>d \<in> set (all_controls a). ctrl_id c = ctrl_id d \<longrightarrow> c = d))"

lemma nodes_of_app:
  "nodes_of (NApp a) =
     NApp a # map NLayer (layers a) @ concat (map (\<lambda>l. nodes_of (NCtrl (root l))) (layers a))"
proof -
  have c: "nodes_of (NCtrl r) = NCtrl r # map snd (object_tree_loop [NCtrl r])" for r
    by (simp add: nodes_of_def object_tree_def del: object_tree_loop.simps)
  show ?thesis
    unfolding c unfolding nodes_of_def
    by (subst object_tree_app) (simp add: comp_def map_concat del: object_tree_loop.simps)
qed

lemma nodes_app_set:
  "set (nodes_of (NApp a)) = insert (NApp a) (NLayer ` set (layers a) \<union> NCtrl ` set (all_controls a))"
  by (simp add: nodes_of_app nodes_of_ctrl all_controls_def image_Un image_UN)

lemma well_identified_nodes:
  assumes "well_identified a" "m \<in> set (nodes_of (NApp a))" "n \<in> set (nodes_of (NApp a))"
    and "ident_of m = ident_of n"
  shows "m = n"
proof -
  have inj: "inj_on layer_id (set (layers a))"
    using assms(1) by (simp add: well_identified_def distinct_map)
  have ctl: "c = d" if "c \<in> set (all_controls a)" "d \<in> set (all_controls a)" "ctrl_id c = ctrl_id d" for c d
    using assms(1) that by (simp add: well_identified_def)
  from assms(2) consider "m = NApp a" | l where "m = NLayer l" "l \<in> set (layers a)"
    | c where "m = NCtrl c" "c \<in> set (all_controls a)"
    unfolding nodes_app_set by auto
  then show ?thesis
  proof cases
    case 1
    then show ?thesis using assms(3,4) unfolding nodes_app_set by auto
  next
    case 2
    then show ?thesis using assms(3,4) inj unfolding nodes_app_set by (auto dest: inj_onD)
  next
    case 3
    then show ?thesis using assms(3,4) ctl unfolding nodes_app_set by auto
  qed
qed

lemma find_node_Some: "find_node a t = Some n \<Longrightarrow> ident_of n = t \<and> n \<in> snd ` set (object_tree (NApp a))"
  by (auto simp: find_node_def dest!: find_Some_in) force

lemma find_node_unique:
  assumes "well_identified a" "n \<in> snd ` set (object_tree (NApp a))"
  shows "find_node a (ident_of n) = Some n"
proof -
  let ?ot = "object_tree (NApp a)"
  from assms(2) obtain q where q: "(q, n) \<in> set ?ot" by auto
  then have "find (\<lambda>(parent, child). ident_of child = ident_of n) ?ot \<noteq> None"
    by (auto simp: find_None_iff)
  then obtain q' n' where f: "find (\<lambda>(parent, child). ident_of child = ident_of n) ?ot = Some (q', n')"
    by auto
  then have in': "(q', n') \<in> set ?ot" and id': "ident_of n' = ident_of n"
    by (auto dest: find_Some_in)
  have "n' \<in> set (nodes_of (NApp a))" "n \<in> set (nodes_of (NApp a))"
    using in' q by (force simp: nodes_of_def)+
  from well_identified_nodes[OF assms(1) this id'] show ?thesis by (simp add: find_node_def f)
qed

lemma get_parent_nodes:
  assumes "well_identified a" "get_parent a x = Some p"
  shows "\<exists>xn pn. find_node a x = Some xn \<and> find_node a p = Some pn \<and> xn \<in> set (node_children pn)"
proof -
  from assms(2) obtain pn xn where f: "find (\<lambda>(parent, child). ident_of child = x) (object_tree (NApp a)) = Some (Some pn, xn)"
    and p: "ident_of pn = p"
    by (auto simp: get_parent_def split: option.splits)
  have x: "find_node a x = Some xn" by (simp add: find_node_def f)
  have "(Some pn, xn) \<in> set (object_tree (NApp a))" using f by (auto dest: find_Some_in)
  then have mem: "(Some pn, xn) \<in> set (object_tree_loop [NApp a])" by (simp add: object_tree_def)
  have ch: "xn \<in> set (node_children pn)" by (rule loop_pair_child[OF mem])
  from loop_pair_parent[OF mem] have "pn \<in> snd ` set (object_tree (NApp a))"
    by (auto simp: object_tree_def simp del: object_tree_loop.simps)
  from find_node_unique[OF assms(1) this] show ?thesis using x ch p by auto
qed

lemma find_ancestor_nodes:
  "well_identified a \<Longrightarrow> find_ancestor a xo S = Some y \<Longrightarrow> xo = Some x \<Longrightarrow> find_node a x = Some xn \<Longrightarrow>
         \<exists>yn. find_node a y = Some yn \<and> xn \<in> set (nodes_of yn)"
proof (induction a xo S arbitrary: x xn rule: find_ancestor.induct)
  case (1 self set0)
  then show ?case by simp
next
  case (2 self ctrl set0)
  note shaped = 2(2) and fa0 = 2(3) and xo = 2(4) and fx = 2(5)
  have x: "x = ctrl" using xo by simp
  show ?case
  proof (cases "ctrl \<in> set set0")
    case True
    then have "y = ctrl" using fa0 by simp
    then show ?thesis using fx x nodes_of_self by auto
  next
    case False
    then have fa: "find_ancestor self (get_parent self ctrl) set0 = Some y" using fa0 by simp
    then obtain p where p: "get_parent self ctrl = Some p" by (cases "get_parent self ctrl") auto
    from get_parent_nodes[OF shaped p] obtain xn' pn where n: "find_node self ctrl = Some xn'"
      "find_node self p = Some pn" "xn' \<in> set (node_children pn)" by blast
    have xn: "xn' = xn" using n(1) fx x by simp
    from 2(1)[OF False shaped fa p n(2)] obtain yn where yn: "find_node self y = Some yn" "pn \<in> set (nodes_of yn)"
      by auto
    have "xn \<in> set (nodes_of pn)" using n(3) xn nodes_of_child[OF n(3)] nodes_of_self by blast
    then show ?thesis using yn nodes_of_trans[OF yn(2)] by blast
  qed
qed

lemma layer_contains:
  assumes "well_identified a" "find_node a (CtrlId s) = Some (NCtrl c)"
    and "layer_of a (CtrlId s) = Some (LayerId l)" "x \<in> set (layers a)" "layer_id x = l"
  shows "c \<in> set (controls_of (root x))"
proof -
  from find_ancestor_nodes[OF assms(1) assms(3)[unfolded layer_of_def] refl assms(2)]
  obtain yn where yn: "find_node a (LayerId l) = Some yn" "NCtrl c \<in> set (nodes_of yn)" by blast
  have "NLayer x \<in> snd ` set (object_tree (NApp a))"
    using assms(4) by (subst object_tree_app) (auto simp: image_Un image_image)
  from find_node_unique[OF assms(1) this] have "yn = NLayer x" using yn(1) assms(5) by simp
  then show ?thesis using yn(2) by (auto simp: nodes_of_def layer_children_nodes)
qed

section \<open>Navigation keeps the invariant\<close>

lemma focus_in_layer_same_trees: "same_trees a (fst (focus_in_layer a l c))"
  by (simp add: same_trees_def focus_in_layer_def comp_def focus_keeps cong: map_cong)

lemma focus_in_layer_inv:
  assumes "app_inv a" "\<forall>x \<in> set (layers a). layer_id x = l \<longrightarrow> c \<in> set (controls_of (root x))"
  shows "app_inv (fst (focus_in_layer a l c))"
  using assms by (auto simp: app_inv_def focus_in_layer_def layer_inv_focus)

lemma same_trees_layers:
  assumes "same_trees a b" "x \<in> set (layers b)"
  shows "\<exists>y \<in> set (layers a). layer_id y = layer_id x \<and> root y = root x"
proof -
  from assms(2) obtain i where i: "i < length (layers b)" "layers b ! i = x"
    by (auto simp: in_set_conv_nth)
  have len: "length (layers a) = length (layers b)"
    using assms(1) by (metis same_trees_def length_map)
  have "map layer_id (layers a) ! i = map layer_id (layers b) ! i"
       "map root (layers a) ! i = map root (layers b) ! i"
    using assms(1) by (simp_all add: same_trees_def)
  then have "layer_id (layers a ! i) = layer_id x" "root (layers a ! i) = root x"
    using i len by simp_all
  then show ?thesis using i len by (metis nth_mem)
qed

definition reaches :: "app \<Rightarrow> nat \<Rightarrow> control list \<Rightarrow> bool" where
  "reaches a self cs =
     (\<forall>l x. layer_of a (CtrlId self) = Some (LayerId l) \<longrightarrow> x \<in> set (layers a) \<longrightarrow> layer_id x = l
            \<longrightarrow> set cs \<subseteq> set (controls_of (root x)))"

lemma reaches_cong: "same_trees a b \<Longrightarrow> reaches a self cs \<Longrightarrow> reaches b self cs"
  unfolding reaches_def using layer_of_cong[of a b] same_trees_layers[of a b] by metis

lemma navigate_step:
  assumes "nxt = i + (if bk then - 1 else 1)"
  shows "navigate a ev self cs bk i =
     (if 0 \<le> i \<and> i < int (length cs) \<and> propagating ev then
        if 0 \<le> nxt \<and> nxt < int (length cs) then
          (case layer_of a (CtrlId self) of
             Some (LayerId l) \<Rightarrow>
               navigate (fst (focus_in_layer a l (cs ! nat nxt)))
                        (if snd (focus_in_layer a l (cs ! nat nxt)) then stop ev else ev) self cs bk nxt
           | _ \<Rightarrow> Inl AttributeError)
        else navigate a ev self cs bk nxt
      else Inr (a, ev))"
  unfolding assms
  by (subst navigate.simps)
     (simp only: Let_def split_beta cong: if_cong option.case_cong ident.case_cong split: option.split ident.split)

lemma navigate_inv:
  "navigate a ev self cs bk i = Inr (a', ev') \<Longrightarrow> app_inv a \<Longrightarrow> reaches a self cs \<Longrightarrow> app_inv a'"
proof (induction a ev self cs bk i rule: navigate.induct)
  case (1 a ev self controls bk i)
  define nxt where "nxt = i + (if bk then - 1 else 1)"
  note step = navigate_step[OF nxt_def, of a ev self controls]
  show ?case
  proof (cases "0 \<le> i \<and> i < int (length controls) \<and> propagating ev")
    case False
    have "navigate a ev self controls bk i = Inr (a, ev)"
      by (simp only: step False if_False simp_thms)
    then show ?thesis using 1(3) 1(4) by simp
  next
    case go: True
    show ?thesis
    proof (cases "0 \<le> nxt \<and> nxt < int (length controls)")
      case False
      have "navigate a ev self controls bk i = navigate a ev self controls bk nxt"
        by (simp only: step go False if_True if_False simp_thms)
      then have "navigate a ev self controls bk nxt = Inr (a', ev')"
        using 1(3) by simp
      from 1(2)[OF go nxt_def False this 1(4) 1(5)] show ?thesis .
    next
      case inside: True
      have s2: "navigate a ev self controls bk i =
          (case layer_of a (CtrlId self) of
             Some (LayerId l) \<Rightarrow>
               navigate (fst (focus_in_layer a l (controls ! nat nxt)))
                        (if snd (focus_in_layer a l (controls ! nat nxt)) then stop ev else ev)
                        self controls bk nxt
           | _ \<Rightarrow> Inl AttributeError)"
        by (simp only: step go inside if_True simp_thms)
      from 1(3) obtain l where l: "layer_of a (CtrlId self) = Some (LayerId l)"
        unfolding s2 by (auto split: option.splits ident.splits)
      obtain a1 ok where f: "focus_in_layer a l (controls ! nat nxt) = (a1, ok)"
        by (cases "focus_in_layer a l (controls ! nat nxt)")
      have nav: "navigate a1 (if ok then stop ev else ev) self controls bk nxt = Inr (a', ev')"
        using 1(3) unfolding s2 by (simp add: l f)
      have "nat nxt < length controls" using inside by linarith
      then have mem: "controls ! nat nxt \<in> set controls" by (rule nth_mem)
      have "\<forall>x \<in> set (layers a). layer_id x = l \<longrightarrow> controls ! nat nxt \<in> set (controls_of (root x))"
        using 1(5) l mem unfolding reaches_def by blast
      from focus_in_layer_inv[OF 1(4) this] have inv1: "app_inv a1" by (simp add: f)
      have "same_trees a a1" using focus_in_layer_same_trees[of a l "controls ! nat nxt"] by (simp add: f)
      from reaches_cong[OF this 1(5)] have r1: "reaches a1 self controls" .
      from 1(1)[OF go nxt_def inside l refl f[symmetric] nav inv1 r1] show ?thesis .
    qed
  qed
qed

section \<open>Every handler keeps the invariant\<close>

lemma children_in_controls_of: "set (children c) \<subseteq> set (controls_of c)"
  using controls_of_child[of _ c] controls_of_self by blast

lemma reaches_container:
  assumes "well_identified a" "find_node a (CtrlId n) = Some (NCtrl c)"
  shows "reaches a n (children c)"
  unfolding reaches_def
proof (intro allI impI)
  fix l x
  assume "layer_of a (CtrlId n) = Some (LayerId l)" "x \<in> set (layers a)" "layer_id x = l"
  from layer_contains[OF assms this] have "c \<in> set (controls_of (root x))" .
  then show "set (children c) \<subseteq> set (controls_of (root x))"
    using controls_of_trans[of c "root x"] children_in_controls_of[of c] by blast
qed

lemma navigate_from_inv:
  assumes "navigate_from a ev n cs bk = Inr (a', ev')" "app_inv a" "reaches a n cs"
  shows "app_inv a'"
  using assms navigate_inv[of a ev n cs bk _ a' ev']
  by (auto simp: navigate_from_def split: option.splits)

lemma on_close_inv: "on_close cb a ok inner = Inr a' \<Longrightarrow> app_inv a \<Longrightarrow> app_inv a'"
  by (cases cb; cases inner)
     (auto split: if_splits intro!: app_inv_update keeps_shape_setters)

lemma Popup_on_event_inv:
  assumes "Popup_on_event a ev inner cb = Inr (a', ev')" "app_inv a"
  shows "app_inv a'"
proof -
  have close: "app_inv b'" if "app_inv b"
    "(case on_close cb b ok inner of Inl e \<Rightarrow> Inl e | Inr x \<Rightarrow> pop_layer x) = Inr b'" for b b' ok
    using that by (auto split: sum.splits dest: on_close_inv app_inv_pop)
  show ?thesis
  proof (cases "ev_type ev = KeyEvent")
    case False
    then show ?thesis using assms by (simp add: Popup_on_event_def)
  next
    case True
    from assms(1) obtain a1 where a1:
      "(if key ev = Some ascii_ESC
        then (case on_close cb a False inner of Inl e \<Rightarrow> Inl e | Inr x \<Rightarrow> pop_layer x) else Inr a) = Inr a1"
      and a2: "(if is_enter ev
        then (case on_close cb a1 True inner of Inl e \<Rightarrow> Inl e | Inr x \<Rightarrow> pop_layer x) else Inr a1) = Inr a'"
      unfolding Popup_on_event_def by (simp add: True split: sum.splits)
    have "app_inv a1" using a1 close[OF assms(2)] assms(2) by (auto split: if_splits)
    then show ?thesis using a2 close by (auto split: if_splits)
  qed
qed

lemma control_on_event_inv:
  assumes "well_identified a" "app_inv a" "find_node a (CtrlId (ctrl_id c)) = Some (NCtrl c)"
    and "control_on_event now a ev c = Inr (a', ev')"
  shows "app_inv a'"
proof (cases c)
  case (Panel n cs)
  have "reaches a n cs" using reaches_container[OF assms(1), of n c] assms(3) by (simp add: Panel)
  then show ?thesis
    using assms(2,4) navigate_from_inv[of a ev n cs _ a' ev']
    by (auto simp: Panel Panel_on_event_def Let_def split: if_splits)
next
  case (Composite n cs m)
  have "reaches a n cs" using reaches_container[OF assms(1), of n c] assms(3) by (simp add: Composite)
  then show ?thesis
    using assms(2,4) navigate_from_inv[of a ev n cs _ a' ev']
    by (auto simp: Composite Composite_on_event_def Let_def split: if_splits)
next
  case (Popup n x y inner cb cap)
  then show ?thesis using assms(2,4) Popup_on_event_inv by auto
next
  case (Combo n choices i r)
  then show ?thesis
    using assms(2,4)
    by (auto simp: Combo_on_event_def Let_def app_inv_push split: if_splits option.splits)
next
  case (DateCombo n v r)
  then show ?thesis
    using assms(2,4)
    by (auto simp: DateCombo_on_event_def Let_def app_inv_push split: if_splits option.splits)
next
  case (SelectList n s)
  then show ?thesis
    using assms(2,4) by (auto split: prod.splits intro!: app_inv_update keeps_shape_setters)
next
  case (SelectDate n v)
  then show ?thesis
    using assms(2,4) by (auto split: prod.splits sum.splits intro!: app_inv_update keeps_shape_setters)
next
  case (Edit n e)
  then show ?thesis
    using assms(2,4) by (auto split: prod.splits sum.splits intro!: app_inv_update keeps_shape_setters)
qed (use assms in auto)

lemma on_event_inv:
  assumes "well_identified a" "app_inv a" "on_event now a ev t = Inr (a', ev')"
  shows "app_inv a'"
proof (cases t)
  case AppId
  then show ?thesis using assms App_on_event_inv by (simp add: on_event_def)
next
  case (LayerId l)
  then show ?thesis using assms by (simp add: on_event_def)
next
  case (CtrlId i)
  with assms(3) obtain c where c: "find_node a (CtrlId i) = Some (NCtrl c)"
    and ev: "control_on_event now a ev c = Inr (a', ev')"
    by (auto simp: on_event_def split: option.splits node.splits)
  from find_node_Some[OF c] have "ctrl_id c = i" by simp
  then show ?thesis using control_on_event_inv[OF assms(1,2) _ ev] c by simp
qed

section \<open>Identities in use and new identities\<close>

definition idents :: "app \<Rightarrow> ident set" where
  "idents a = snd ` set (skeleton a)"

lemma find_skip: "\<forall>x \<in> set xs. \<not> P x \<Longrightarrow> find P (xs @ ys) = find P ys"
  by (induction xs) auto

lemma find_first_part: "find P xs = Some x \<Longrightarrow> find P (xs @ ys) = Some x"
  by (simp add: find_app)

lemma find_node_skeleton_None:
  "t \<notin> idents a \<Longrightarrow> find_node a t = None"
  by (force simp: find_node_def idents_def skeleton_def pair_ids_def find_None_iff)

lemma get_parent_None: "t \<notin> idents a \<Longrightarrow> get_parent a t = None"
proof -
  assume "t \<notin> idents a"
  then have "find (\<lambda>(p, c). c = t) (skeleton a) = None"
    by (auto simp: find_None_iff idents_def image_iff)
  then show ?thesis by (simp add: get_parent_skeleton)
qed

lemma fold_max_ge: "x \<in> set xs \<Longrightarrow> x \<le> fold max xs (m::nat)"
proof (induction xs arbitrary: m)
  case Nil
  then show ?case by simp
next
  case (Cons y ys)
  have mono: "m \<le> fold max ys m" for m :: nat and ys
    by (induction ys arbitrary: m) (auto intro: order_trans[OF max.cobounded2])
  show ?case
  proof (cases "x = y")
    case True
    then show ?thesis using mono[of "max y m" ys] by simp
  next
    case False
    then show ?thesis using Cons by simp
  qed
qed

lemma new_id_fresh: "t \<in> idents a \<Longrightarrow> id_number t < new_id [NApp a]"
proof -
  assume "t \<in> idents a"
  then have "id_number t \<in> set (map (id_number \<circ> ident_of \<circ> snd) (object_tree (NApp a)))"
    by (force simp: idents_def skeleton_def pair_ids_def)
  from fold_max_ge[OF this] show ?thesis by (simp add: new_id_def less_Suc_eq_le)
qed

lemma new_id_fresh2:
  "t \<in> idents a \<Longrightarrow> id_number t < new_id [NApp a, NCtrl c]"
proof -
  assume "t \<in> idents a"
  then have "id_number t \<in> set (map (id_number \<circ> ident_of \<circ> snd) (concat (map object_tree [NApp a, NCtrl c])))"
    by (force simp: idents_def skeleton_def pair_ids_def)
  from fold_max_ge[OF this] show ?thesis by (simp add: new_id_def less_Suc_eq_le del: map_append)
qed

lemma new_id_fresh_ctrl:
  assumes "NCtrl d \<in> set (nodes_of (NCtrl c))"
  shows "ctrl_id d < new_id [NApp a, NCtrl c]"
proof -
  from assms obtain q where "(q, NCtrl d) \<in> set (object_tree (NCtrl c))"
    by (auto simp: nodes_of_def)
  then have "(id_number \<circ> ident_of \<circ> snd) (q, NCtrl d)
               \<in> (id_number \<circ> ident_of \<circ> snd) ` set (concat (map object_tree [NApp a, NCtrl c]))"
    by (intro imageI) simp
  then have "ctrl_id d \<in> set (map (id_number \<circ> ident_of \<circ> snd) (concat (map object_tree [NApp a, NCtrl c])))"
    by (simp only: set_map comp_def snd_conv ident_of.simps id_number.simps)
  from fold_max_ge[OF this] show ?thesis by (simp add: new_id_def less_Suc_eq_le del: map_append)
qed

text \<open>An App with one more Layer on top.\<close>

lemma skeleton_push:
  "skeleton (a\<lparr>layers := layers a @ [L]\<rparr>) =
     (None, AppId) # map (\<lambda>l. (Some AppId, LayerId (layer_id l))) (layers a)
     @ (Some AppId, LayerId (layer_id L))
     # concat (map (\<lambda>l. (Some (LayerId (layer_id l)), CtrlId (ctrl_id (root l))) # ctrl_skeleton (root l))
                   (layers a))
     @ (Some (LayerId (layer_id L)), CtrlId (ctrl_id (root L))) # ctrl_skeleton (root L)"
  by (simp add: skeleton_eq)

lemma idents_eq:
  "idents a = insert AppId ((\<lambda>l. LayerId (layer_id l)) ` set (layers a)
     \<union> (\<Union>l \<in> set (layers a). insert (CtrlId (ctrl_id (root l))) (snd ` set (ctrl_skeleton (root l)))))"
  by (auto simp: idents_def skeleton_eq image_Un image_image image_UN)

lemma find_insert_fresh:
  assumes "\<not> P y" "\<forall>w \<in> set ws. \<not> P w"
  shows "find P (xs @ y # zs @ ws) = find P (xs @ zs)"
proof -
  have "find P ws = None" using assms(2) by (auto simp: find_None_iff)
  then have "find P (y # zs @ ws) = find P zs"
    using assms(1) by (simp add: find_app split: option.splits)
  then show ?thesis by (simp only: find_app) 
qed

lemma get_parent_push_old:
  assumes "LayerId (layer_id L) \<noteq> t" "CtrlId (ctrl_id (root L)) \<noteq> t" "t \<notin> snd ` set (ctrl_skeleton (root L))"
  shows "get_parent (a\<lparr>layers := layers a @ [L]\<rparr>) t = get_parent a t"
proof -
  let ?H = "(None, AppId) # map (\<lambda>l. (Some AppId, LayerId (layer_id l))) (layers a)"
  let ?T = "concat (map (\<lambda>l. (Some (LayerId (layer_id l)), CtrlId (ctrl_id (root l))) # ctrl_skeleton (root l)) (layers a))"
  let ?W = "(Some (LayerId (layer_id L)), CtrlId (ctrl_id (root L))) # ctrl_skeleton (root L)"
  have "find (\<lambda>(p, c). c = t) (?H @ (Some AppId, LayerId (layer_id L)) # ?T @ ?W)
          = find (\<lambda>(p, c). c = t) (?H @ ?T)"
  proof (rule find_insert_fresh)
    show "\<not> (case (Some AppId, LayerId (layer_id L)) of (p, c) \<Rightarrow> c = t)" using assms(1) by simp
    show "\<forall>w \<in> set ?W. \<not> (case w of (p, c) \<Rightarrow> c = t)"
      using assms(2,3) by (auto simp: image_iff)
  qed
  then show ?thesis
    by (simp add: get_parent_skeleton skeleton_push skeleton_eq)
qed

section \<open>Updates and the identities of a tree\<close>

lemma ctrl_skeleton_rec:
  "ctrl_skeleton c =
     map (\<lambda>ch. (Some (CtrlId (ctrl_id c)), CtrlId (ctrl_id ch))) (children c)
     @ concat (map ctrl_skeleton (children c))"
proof -
  have "object_tree_loop (map NCtrl (children c))
          = concat (map (\<lambda>ch. object_tree_loop [NCtrl ch]) (children c))"
    by (subst object_tree_loop_concat) (simp add: comp_def del: object_tree_loop.simps)
  then show ?thesis
    unfolding ctrl_skeleton_def
    by (simp add: object_tree_loop.simps(2)[of "NCtrl c" "[]"] pair_ids_def comp_def
                  map_concat del: object_tree_loop.simps)
qed


lemma update_absent:
  "ctrl_id c \<noteq> n \<Longrightarrow> CtrlId n \<notin> snd ` set (ctrl_skeleton c) \<Longrightarrow> update n f c = c"
proof (induction c rule: control_induct)
  case (control c)
  have ch: "update n f ch = ch" if "ch \<in> set (children c)" for ch
  proof (rule control.IH[OF that])
    show "ctrl_id ch \<noteq> n"
      using control.prems(2) that by (subst (asm) ctrl_skeleton_rec) (auto simp: image_Un image_image)
    show "CtrlId n \<notin> snd ` set (ctrl_skeleton ch)"
      using control.prems(2) that by (subst (asm) ctrl_skeleton_rec) (auto simp: image_Un image_image)
  qed
  show ?case
    using control.prems(1) ch by (cases c) (auto simp: map_idI)
qed

lemma update_app_absent:
  assumes "CtrlId n \<notin> idents a"
  shows "update_app n f a = a"
proof -
  have "l\<lparr>root := update n f (root l)\<rparr> = l" if "l \<in> set (layers a)" for l
  proof -
    have "ctrl_id (root l) \<noteq> n" "CtrlId n \<notin> snd ` set (ctrl_skeleton (root l))"
      using assms that by (auto simp: idents_eq)
    then show ?thesis by (simp add: update_absent)
  qed
  then show ?thesis by (simp add: update_app_def map_idI)
qed

lemma ctrl_skeleton_update:
  assumes f: "keeps_shape f"
  shows "ctrl_skeleton (update n f c) = ctrl_skeleton c"
proof (induction c rule: control_induct)
  case (control c)
  show ?case
  proof (cases "ctrl_id c = n")
    case True
    then show ?thesis
      by (simp add: ctrl_skeleton_rec[of "update n f c"] ctrl_skeleton_rec[of c] update_shape[OF f])
  next
    case False
    have "concat (map ctrl_skeleton (map (update n f) (children c))) = concat (map ctrl_skeleton (children c))"
      using control.IH by (simp add: comp_def cong: map_cong)
    then show ?thesis
      by (simp add: ctrl_skeleton_rec[of "update n f c"] ctrl_skeleton_rec[of c] update_shape[OF f]
                    False comp_def)
  qed
qed

lemma skeleton_update: "keeps_shape f \<Longrightarrow> skeleton (update_app n f a) = skeleton a"
  by (simp add: skeleton_eq update_app_def comp_def ctrl_skeleton_update update_shape)

lemma idents_update: "keeps_shape f \<Longrightarrow> idents (update_app n f a) = idents a"
  by (simp add: idents_def skeleton_update)

section \<open>A Combo's popup on top of an App\<close>

definition popup_layer :: "nat \<Rightarrow> nat \<Rightarrow> int \<Rightarrow> int \<Rightarrow> nat \<Rightarrow> select_list \<Rightarrow> callback \<Rightarrow> string \<Rightarrow> layer" where
  "popup_layer lid p x y s sl cb cap =
     \<lparr>layer_id = lid, root = Popup p x y (SelectList s sl) cb cap, focused = s\<rparr>"

definition with_popup :: "app \<Rightarrow> layer \<Rightarrow> app" where
  "with_popup a L = a\<lparr>layers := layers a @ [L]\<rparr>"

definition fresh3 :: "app \<Rightarrow> nat \<Rightarrow> nat \<Rightarrow> nat \<Rightarrow> bool" where
  "fresh3 a lid p s =
     (LayerId lid \<notin> idents a \<and> CtrlId p \<notin> idents a \<and> CtrlId s \<notin> idents a \<and> p \<noteq> s)"

lemma popup_skeleton:
  "skeleton (with_popup a (popup_layer lid p x y s sl cb cap)) =
     (None, AppId) # map (\<lambda>l. (Some AppId, LayerId (layer_id l))) (layers a)
     @ (Some AppId, LayerId lid)
     # concat (map (\<lambda>l. (Some (LayerId (layer_id l)), CtrlId (ctrl_id (root l))) # ctrl_skeleton (root l))
                   (layers a))
     @ [(Some (LayerId lid), CtrlId p), (Some (CtrlId p), CtrlId s)]"
  unfolding with_popup_def
  by (subst skeleton_push) (simp add: popup_layer_def ctrl_skeleton_rec[of "Popup p x y (SelectList s sl) cb cap"]
        ctrl_skeleton_rec[of "SelectList s sl"])

lemma skeleton_split:
  "set (skeleton a) = set ((None, AppId) # map (\<lambda>l. (Some AppId, LayerId (layer_id l))) (layers a))
     \<union> set (concat (map (\<lambda>l. (Some (LayerId (layer_id l)), CtrlId (ctrl_id (root l))) # ctrl_skeleton (root l))
                   (layers a)))"
  by (simp add: skeleton_eq)

lemma find_in_parts:
  "\<forall>w \<in> set A. \<not> P w \<Longrightarrow> \<not> P m \<Longrightarrow> \<forall>w \<in> set B. \<not> P w \<Longrightarrow> find P (A @ m # B @ R) = find P R"
  by (simp add: find_skip)

lemma popup_parents:
  fixes x y sl cb cap
  assumes "fresh3 a lid p s"
  defines "b \<equiv> with_popup a (popup_layer lid p x y s sl cb cap)"
  shows "get_parent b (CtrlId s) = Some (CtrlId p)"
    and "get_parent b (CtrlId p) = Some (LayerId lid)"
    and "get_parent b (LayerId lid) = Some AppId"
    and "get_parent b AppId = None"
proof -
  define H where "H = (None, AppId) # map (\<lambda>l. (Some AppId, LayerId (layer_id l))) (layers a)"
  define T where "T = concat (map (\<lambda>l. (Some (LayerId (layer_id l)), CtrlId (ctrl_id (root l))) # ctrl_skeleton (root l)) (layers a))"
  have sk: "skeleton b = H @ (Some AppId, LayerId lid) # T @ [(Some (LayerId lid), CtrlId p), (Some (CtrlId p), CtrlId s)]"
    unfolding b_def H_def T_def by (simp add: popup_skeleton)
  have old: "set H \<union> set T = set (skeleton a)" by (simp add: skeleton_eq H_def T_def)
  have no: "\<forall>w \<in> set H \<union> set T. snd w \<noteq> t" if "t \<notin> idents a" for t
    using that unfolding old idents_def by auto
  have H: "\<forall>w \<in> set H. \<not> (case w of (q, c) \<Rightarrow> c = t)"
    and T: "\<forall>w \<in> set T. \<not> (case w of (q, c) \<Rightarrow> c = t)" if "t \<notin> idents a" for t
    using no[OF that] by (auto simp: case_prod_beta)
  have fs: "CtrlId s \<notin> idents a" and fp: "CtrlId p \<notin> idents a" and fl: "LayerId lid \<notin> idents a"
    and ps: "p \<noteq> s"
    using assms(1) by (simp_all add: fresh3_def)
  show "get_parent b (CtrlId s) = Some (CtrlId p)"
    unfolding get_parent_skeleton sk
    by (subst find_in_parts[OF H[OF fs] _ T[OF fs]]) (use ps in simp_all)
  show "get_parent b (CtrlId p) = Some (LayerId lid)"
    unfolding get_parent_skeleton sk
    by (subst find_in_parts[OF H[OF fp] _ T[OF fp]]) simp_all
  show "get_parent b (LayerId lid) = Some AppId"
    unfolding get_parent_skeleton sk
    by (subst find_skip[OF H[OF fl]]) simp
  show "get_parent b AppId = None"
    unfolding get_parent_skeleton sk by (simp add: H_def)
qed

lemma find_node_nodes: "find_node a t = find (\<lambda>n. ident_of n = t) (nodes_of (NApp a))"
  by (simp add: find_node_def nodes_of_def find_snd)

lemma idents_nodes: "idents a = ident_of ` set (nodes_of (NApp a))"
  by (simp add: idents_def skeleton_def pair_ids_def nodes_of_def image_image)

lemma nodes_of_popup:
  "nodes_of (NCtrl (Popup p x y (SelectList s sl) cb cap))
     = [NCtrl (Popup p x y (SelectList s sl) cb cap), NCtrl (SelectList s sl)]"
  by (simp add: nodes_of_ctrl controls_of_rec[of "Popup p x y (SelectList s sl) cb cap"]
                controls_of_rec[of "SelectList s sl"])

lemma popup_find_node:
  fixes x y sl cb cap
  assumes "fresh3 a lid p s"
  defines "b \<equiv> with_popup a (popup_layer lid p x y s sl cb cap)"
  shows "find_node b (CtrlId s) = Some (NCtrl (SelectList s sl))"
    and "find_node b (CtrlId p) = Some (NCtrl (Popup p x y (SelectList s sl) cb cap))"
proof -
  define H where "H = NApp b # map NLayer (layers a)"
  define T where "T = concat (map (\<lambda>l. nodes_of (NCtrl (root l))) (layers a))"
  have nb: "nodes_of (NApp b) = H @ NLayer (popup_layer lid p x y s sl cb cap) # T
              @ [NCtrl (Popup p x y (SelectList s sl) cb cap), NCtrl (SelectList s sl)]"
    unfolding H_def T_def b_def
    by (simp add: nodes_of_app with_popup_def) (simp add: popup_layer_def nodes_of_popup)
  have old: "ident_of ` (set H \<union> set T) = idents a"
    by (simp add: idents_nodes nodes_of_app H_def T_def image_Un)
  have H: "\<forall>w \<in> set H. \<not> ident_of w = t" and T: "\<forall>w \<in> set T. \<not> ident_of w = t" if "t \<notin> idents a" for t
    using that unfolding old[symmetric] by auto
  have fs: "CtrlId s \<notin> idents a" and fp: "CtrlId p \<notin> idents a" and ps: "p \<noteq> s"
    using assms(1) by (simp_all add: fresh3_def)
  show "find_node b (CtrlId s) = Some (NCtrl (SelectList s sl))"
    unfolding find_node_nodes nb
    by (subst find_in_parts[OF H[OF fs] _ T[OF fs]]) (use ps in simp_all)
  show "find_node b (CtrlId p) = Some (NCtrl (Popup p x y (SelectList s sl) cb cap))"
    unfolding find_node_nodes nb
    by (subst find_in_parts[OF H[OF fp] _ T[OF fp]]) simp_all
qed

lemma update_layers_absent:
  assumes "CtrlId n \<notin> idents a"
  shows "map (\<lambda>l. l\<lparr>root := update n f (root l)\<rparr>) (layers a) = layers a"
  using arg_cong[OF update_app_absent[OF assms, of f], of layers] by (simp add: update_app_def)

lemma popup_update_inner:
  assumes "fresh3 a lid p s"
  shows "update_app s (set_select_list sl') (with_popup a (popup_layer lid p x y s sl cb cap))
           = with_popup a (popup_layer lid p x y s sl' cb cap)"
proof -
  have "CtrlId s \<notin> idents a" "p \<noteq> s" using assms by (simp_all add: fresh3_def)
  then show ?thesis
    by (simp add: update_app_def with_popup_def popup_layer_def update_layers_absent)
qed

lemma popup_active:
  "active_layer (with_popup a L) = Inr L" "layers (with_popup a L) \<noteq> []"
  "exit (with_popup a L) = exit a"
  by (simp_all add: active_layer_def with_popup_def)

lemma popup_pop: "pop_layer (with_popup a L) = Inr a"
  by (simp add: pop_layer_def with_popup_def)

lemma popup_pop_update:
  "pop_layer (update_app n f (with_popup a L)) = Inr (update_app n f a)"
  by (simp add: pop_layer_def with_popup_def update_app_def)

lemma dispatch_end: "dispatch_loop now a None e = Some (Inr (a, e))"
  by (subst dispatch_loop.simps) simp

lemma dispatch_stopped: "\<not> propagating e \<Longrightarrow> dispatch_loop now a t e = Some (Inr (a, e))"
  by (subst dispatch_loop.simps) (simp split: option.splits)

lemma dispatch_step:
  "propagating e \<Longrightarrow> on_event now a e t = Inr (a', e') \<Longrightarrow>
     dispatch_loop now a (Some t) e = dispatch_loop now a' (get_parent a' t) (e'\<lparr>ev_last := Some t\<rparr>)"
  by (subst dispatch_loop.simps) simp

lemma dispatch_error:
  "propagating e \<Longrightarrow> on_event now a e t = Inl err \<Longrightarrow> dispatch_loop now a (Some t) e = Some (Inl err)"
  by (subst dispatch_loop.simps) simp

text \<open>A key event: what the handlers look at stays the same while the event bubbles.\<close>

definition is_key :: "int \<Rightarrow> event \<Rightarrow> bool" where
  "is_key k e = (ev_type e = KeyEvent \<and> key e = Some k \<and> what e = Some k \<and> propagating e)"

lemma is_key_simps:
  "is_key k (Event KeyEvent (Some k) t)" "is_key k e \<Longrightarrow> is_key k (e\<lparr>ev_last := l\<rparr>)"
  "is_key k e \<Longrightarrow> propagating e" "is_key k e \<Longrightarrow> ev_type e = KeyEvent" "is_key k e \<Longrightarrow> key e = Some k"
  by (simp_all add: is_key_def Event_def)

lemma on_close_cancel: "on_close cb a False inner = Inr a"
  by (cases cb) simp_all

lemma popup_escape:
  assumes fr: "fresh3 a lid p s"
  shows "key_press now (with_popup a (popup_layer lid p x y s sl cb cap)) ascii_ESC = Some (Inr a)"
proof -
  define b where "b = with_popup a (popup_layer lid p x y s sl cb cap)"
  define P where "P = Popup p x y (SelectList s sl) cb cap"
  note fn = popup_find_node[OF fr, of x y sl cb cap, folded b_def]
  note gp = popup_parents[OF fr, of x y sl cb cap, folded b_def]
  have h1: "on_event now b e (CtrlId s) = Inr (b, e)" if "is_key ascii_ESC e" for e
    using that
    by (simp add: on_event_def fn select_list_on_event_def is_key_def key_defs
                  popup_update_inner[OF fr, of sl x y sl cb cap, folded b_def])
  have h2: "on_event now b e (CtrlId p) = Inr (a, e)" if "is_key ascii_ESC e" for e
    using that
    by (simp add: on_event_def fn Popup_on_event_def is_key_def on_close_cancel is_enter_def key_defs
                  popup_pop[of a "popup_layer lid p x y s sl cb cap", folded b_def])
  have g: "get_parent a (CtrlId p) = None"
    using fr by (simp add: get_parent_None fresh3_def)
  define e0 where "e0 = Event KeyEvent (Some ascii_ESC) (Some (CtrlId s))"
  have k0: "is_key ascii_ESC e0" by (simp add: e0_def is_key_simps)
  have k1: "is_key ascii_ESC (e0\<lparr>ev_last := Some (CtrlId s)\<rparr>)" using k0 by (rule is_key_simps)
  have "dispatch_loop now b (Some (CtrlId s)) e0
          = dispatch_loop now b (Some (CtrlId p)) (e0\<lparr>ev_last := Some (CtrlId s)\<rparr>)"
    using dispatch_step[OF is_key_simps(3)[OF k0] h1[OF k0]] by (simp add: gp)
  also have "\<dots> = dispatch_loop now a None (e0\<lparr>ev_last := Some (CtrlId s), ev_last := Some (CtrlId p)\<rparr>)"
    using dispatch_step[OF is_key_simps(3)[OF k1] h2[OF k1]] by (simp add: g)
  finally have "dispatch_loop now b (Some (CtrlId s)) e0 = Some (Inr (a, e0\<lparr>ev_last := Some (CtrlId p)\<rparr>))"
    by (simp add: dispatch_end)
  then show ?thesis
    unfolding b_def[symmetric] key_press_def dispatch_event_def
    by (simp add: popup_active[of a "popup_layer lid p x y s sl cb cap", folded b_def] e0_def[symmetric]
                  popup_layer_def)
       (simp add: e0_def Event_def)
qed

lemma popup_enter:
  assumes fr: "fresh3 a lid p s" and k: "k \<in> {KEY_ENTER, ALT_ENTER}"
  shows "key_press now (with_popup a (popup_layer lid p x y s sl (Combo_on_popup_close c) cap)) k
           = Some (Inr (update_app c (set_index (sl_index sl)) a))"
proof -
  define cb where "cb = Combo_on_popup_close c"
  define b where "b = with_popup a (popup_layer lid p x y s sl cb cap)"
  define a' where "a' = update_app c (set_index (sl_index sl)) a"
  note fn = popup_find_node[OF fr, of x y sl cb cap, folded b_def]
  note gp = popup_parents[OF fr, of x y sl cb cap, folded b_def]
  have h1: "on_event now b e (CtrlId s) = Inr (b, e)" if "is_key k e" for e
    using that k
    by (auto simp add: on_event_def fn select_list_on_event_def is_key_def key_defs
                  popup_update_inner[OF fr, of sl x y sl cb cap, folded b_def])
  have h2: "on_event now b e (CtrlId p) = Inr (a', e)" if "is_key k e" for e
    using that k
    by (auto simp add: on_event_def fn Popup_on_event_def is_key_def is_enter_def key_defs cb_def a'_def
                  popup_pop_update[of c _ a "popup_layer lid p x y s sl cb cap", folded b_def, unfolded cb_def])
  have "CtrlId p \<notin> idents a'"
    using fr by (simp add: a'_def idents_update keeps_shape_setters fresh3_def)
  then have g: "get_parent a' (CtrlId p) = None"
    by (simp add: get_parent_None)
  define e0 where "e0 = Event KeyEvent (Some k) (Some (CtrlId s))"
  have k0: "is_key k e0" by (simp add: e0_def is_key_simps)
  have k1: "is_key k (e0\<lparr>ev_last := Some (CtrlId s)\<rparr>)" using k0 by (rule is_key_simps)
  have "dispatch_loop now b (Some (CtrlId s)) e0
          = dispatch_loop now b (Some (CtrlId p)) (e0\<lparr>ev_last := Some (CtrlId s)\<rparr>)"
    using dispatch_step[OF is_key_simps(3)[OF k0] h1[OF k0]] by (simp add: gp)
  also have "\<dots> = dispatch_loop now a' None (e0\<lparr>ev_last := Some (CtrlId s), ev_last := Some (CtrlId p)\<rparr>)"
    using dispatch_step[OF is_key_simps(3)[OF k1] h2[OF k1]] by (simp add: g)
  finally have "dispatch_loop now b (Some (CtrlId s)) e0 = Some (Inr (a', e0\<lparr>ev_last := Some (CtrlId p)\<rparr>))"
    by (simp add: dispatch_end)
  then show ?thesis
    unfolding b_def[symmetric] cb_def[symmetric] a'_def[symmetric] key_press_def dispatch_event_def
    by (simp add: popup_active[of a "popup_layer lid p x y s sl cb cap", folded b_def] e0_def[symmetric]
                  popup_layer_def)
       (simp add: e0_def Event_def)
qed

lemma select_list_event_fst:
  "ev_type e = KeyEvent \<Longrightarrow> key e = Some k \<Longrightarrow>
     fst (select_list_on_event sl e) = fst (select_list_on_event sl (key_event k))"
  by (simp add: select_list_on_event_def key_event_def Event_def Let_def stop_def key_defs)

lemma select_list_event_snd:
  "select_list_on_event sl e = (sl', e') \<Longrightarrow> e' = stop e \<or> (e' = e \<and> sl' = sl)"
  by (auto simp: select_list_on_event_def Let_def stop_def split: if_splits)

lemma popup_focus_first:
  "focus_first (popup_layer lid p x y s sl cb cap) = popup_layer lid p x y s sl cb cap"
  "focus_last (popup_layer lid p x y s sl cb cap) = popup_layer lid p x y s sl cb cap"
  by (simp_all add: focus_first_eq focus_last_eq popup_layer_def
        controls_of_rec[of "Popup p x y (SelectList s sl) cb cap"] controls_of_rec[of "SelectList s sl"])

lemma popup_set_active: "set_active_layer (with_popup a L) f = Inr (with_popup a (f L))"
  by (simp add: set_active_layer_def active_layer_def with_popup_def)

lemma popup_app_event:
  assumes "key e \<noteq> Some ascii_ESC"
  shows "App_on_event (with_popup a (popup_layer lid p x y s sl cb cap)) e
           = Inr (with_popup a (popup_layer lid p x y s sl cb cap), e)"
  using assms
  by (simp add: App_on_event_def popup_set_active popup_focus_first)

lemma popup_updown:
  assumes fr: "fresh3 a lid p s" and k: "k \<in> {KEY_UP, KEY_DOWN}"
  shows "key_press now (with_popup a (popup_layer lid p x y s sl cb cap)) k
           = Some (Inr (with_popup a (popup_layer lid p x y s (fst (select_list_on_event sl (key_event k))) cb cap)))"
proof -
  define b where "b = with_popup a (popup_layer lid p x y s sl cb cap)"
  define sl' where "sl' = fst (select_list_on_event sl (key_event k))"
  define b' where "b' = with_popup a (popup_layer lid p x y s sl' cb cap)"
  note fn = popup_find_node[OF fr, of x y sl cb cap, folded b_def]
  note gp = popup_parents[OF fr, of x y sl cb cap, folded b_def]
  note gp' = popup_parents[OF fr, of x y sl' cb cap, folded b'_def]
  define e0 where "e0 = Event KeyEvent (Some k) (Some (CtrlId s))"
  have k0: "is_key k e0" by (simp add: e0_def is_key_simps)
  obtain e' where se: "select_list_on_event sl e0 = (sl', e')"
    using select_list_event_fst[of e0 k sl] k0
    by (cases "select_list_on_event sl e0") (simp add: sl'_def is_key_def)
  have h1: "on_event now b e0 (CtrlId s) = Inr (b', e')"
    by (simp add: on_event_def fn se b'_def
                  popup_update_inner[OF fr, of sl' x y sl cb cap, folded b_def])
  have d1: "dispatch_loop now b (Some (CtrlId s)) e0
          = dispatch_loop now b' (Some (CtrlId p)) (e'\<lparr>ev_last := Some (CtrlId s)\<rparr>)"
    using dispatch_step[OF is_key_simps(3)[OF k0] h1] by (simp add: gp')
  have "\<exists>e. dispatch_loop now b (Some (CtrlId s)) e0 = Some (Inr (b', e))"
  proof (cases "e' = stop e0")
    case True
    then show ?thesis unfolding d1 by (simp add: dispatch_stopped stop_def)
  next
    case False
    then have same: "e' = e0" "sl' = sl" using select_list_event_snd[OF se] by auto
    then have bb: "b' = b" by (simp add: b_def b'_def)
    define e1 where "e1 = e0\<lparr>ev_last := Some (CtrlId s)\<rparr>"
    define e2 where "e2 = e1\<lparr>ev_last := Some (CtrlId p)\<rparr>"
    define e3 where "e3 = e2\<lparr>ev_last := Some (LayerId lid)\<rparr>"
    have k1: "is_key k e1" unfolding e1_def using k0 by (rule is_key_simps)
    have k2: "is_key k e2" unfolding e2_def using k1 by (rule is_key_simps)
    have k3: "is_key k e3" unfolding e3_def using k2 by (rule is_key_simps)
    have h2: "on_event now b e1 (CtrlId p) = Inr (b, e1)"
      using k1 k
      by (auto simp add: on_event_def fn Popup_on_event_def is_key_def is_enter_def key_defs)
    have h3: "on_event now b e2 (LayerId lid) = Inr (b, e2)"
      by (simp add: on_event_def)
    have "key e3 \<noteq> Some ascii_ESC" using k3 k by (auto simp: is_key_def key_defs)
    then have h4: "on_event now b e3 AppId = Inr (b, e3)"
      by (simp add: on_event_def b_def popup_app_event)
    have "dispatch_loop now b (Some (CtrlId s)) e0 = dispatch_loop now b (Some (CtrlId p)) e1"
      unfolding d1 by (simp add: same bb e1_def)
    also have "\<dots> = dispatch_loop now b (Some (LayerId lid)) e2"
      using dispatch_step[OF is_key_simps(3)[OF k1] h2] by (simp add: gp e2_def)
    also have "\<dots> = dispatch_loop now b (Some AppId) e3"
      using dispatch_step[OF is_key_simps(3)[OF k2] h3] by (simp add: gp e3_def)
    also have "\<dots> = dispatch_loop now b None (e3\<lparr>ev_last := Some AppId\<rparr>)"
      using dispatch_step[OF is_key_simps(3)[OF k3] h4] by (simp add: gp)
    finally show ?thesis by (simp add: dispatch_end bb)
  qed
  then obtain e where "dispatch_loop now b (Some (CtrlId s)) e0 = Some (Inr (b', e))" ..
  then show ?thesis
    unfolding b_def[symmetric] b'_def[symmetric] sl'_def[symmetric] key_press_def dispatch_event_def
    by (simp add: popup_active[of a "popup_layer lid p x y s sl cb cap", folded b_def] e0_def[symmetric]
                  popup_layer_def)
       (simp add: e0_def Event_def)
qed

lemma key_presses_exit: "exit a \<Longrightarrow> key_presses now a ks = Some (Inr a)"
  by (cases ks) simp_all

lemma popup_keys:
  assumes fr: "fresh3 a lid p s" and ne: "\<not> exit a"
  shows "set ks \<subseteq> {KEY_UP, KEY_DOWN} \<Longrightarrow>
         key_presses now (with_popup a (popup_layer lid p x y s sl cb cap)) (ks @ rest)
           = key_presses now (with_popup a (popup_layer lid p x y s (select_list_keys sl ks) cb cap)) rest"
proof (induction ks arbitrary: sl)
  case Nil
  then show ?case by simp
next
  case (Cons k ks)
  have k: "k \<in> {KEY_UP, KEY_DOWN}" using Cons.prems by simp
  have ks: "set ks \<subseteq> {KEY_UP, KEY_DOWN}" using Cons.prems by simp
  show ?case
    using Cons.IH[OF ks] ne by (simp add: popup_active popup_updown[OF fr k])
qed

section \<open>The way of a bubbling event\<close>

function ancestors :: "app \<Rightarrow> ident \<Rightarrow> ident list" where
  "ancestors a t = t # (case get_parent a t of None \<Rightarrow> [] | Some p \<Rightarrow> ancestors a p)"
  by pat_completeness auto
termination
  by (relation "measure (\<lambda>(a, t). first_pos a t)") (auto dest: get_parent_first_pos)

declare ancestors.simps [simp del]

lemma bubble_to:
  "ancestors a t0 = ts @ u # us \<Longrightarrow>
   \<forall>t \<in> set ts. get_parent b t = get_parent a t \<and> (\<forall>e. is_key k e \<longrightarrow> on_event now b e t = Inr (b, e)) \<Longrightarrow>
   is_key k e \<Longrightarrow>
   \<exists>e'. is_key k e' \<and> dispatch_loop now b (Some t0) e = dispatch_loop now b (Some u) e'"
proof (induction ts arbitrary: t0 e)
  case Nil
  then have "t0 = u" by (subst (asm) ancestors.simps) simp
  then show ?case using Nil(3) by auto
next
  case (Cons t ts)
  from Cons.prems(1) have t0: "t0 = t"
    and rest: "(case get_parent a t0 of None \<Rightarrow> [] | Some p \<Rightarrow> ancestors a p) = ts @ u # us"
    by (subst (asm) ancestors.simps, simp)+
  then obtain q where q: "get_parent a t = Some q" "ancestors a q = ts @ u # us"
    by (cases "get_parent a t0") auto
  have gp: "get_parent b t = Some q" using Cons.prems(2) q(1) by simp
  have h: "on_event now b e t = Inr (b, e)" using Cons.prems(2,3) by simp
  have k1: "is_key k (e\<lparr>ev_last := Some t\<rparr>)" using Cons.prems(3) by (rule is_key_simps)
  have "dispatch_loop now b (Some t0) e = dispatch_loop now b (Some q) (e\<lparr>ev_last := Some t\<rparr>)"
    using dispatch_step[OF is_key_simps(3)[OF Cons.prems(3)] h] by (simp add: gp t0)
  moreover from Cons.IH[OF q(2) _ k1] Cons.prems(2)
  obtain e' where "is_key k e'"
    "dispatch_loop now b (Some q) (e\<lparr>ev_last := Some t\<rparr>) = dispatch_loop now b (Some u) e'"
    by auto
  ultimately show ?case by auto
qed

lemma ancestors_not_Nil: "ancestors a t \<noteq> []"
  by (subst ancestors.simps) simp

lemma ancestors_last: "ancestors a t0 = ts @ [u] \<Longrightarrow> get_parent a u = None"
proof (induction ts arbitrary: t0)
  case Nil
  then show ?case
    using ancestors_not_Nil[of a] by (subst (asm) ancestors.simps) (auto split: option.splits)
next
  case (Cons t ts)
  from Cons.prems have "(case get_parent a t0 of None \<Rightarrow> [] | Some p \<Rightarrow> ancestors a p) = ts @ [u]"
    by (subst (asm) ancestors.simps) auto
  then obtain q where "ancestors a q = ts @ [u]"
    by (cases "get_parent a t0") auto
  then show ?case by (rule Cons.IH)
qed


lemma ancestors_snoc: "\<exists>ts u. ancestors a t = ts @ [u]"
proof -
  have "ancestors a t \<noteq> []" by (subst ancestors.simps) simp
  then show ?thesis by (metis append_butlast_last_id)
qed

lemma bubble:
  assumes "\<forall>t \<in> set (ancestors a t0).
             get_parent b t = get_parent a t \<and> (\<forall>e. is_key k e \<longrightarrow> on_event now b e t = Inr (b, e))"
    and "is_key k e"
  shows "\<exists>e'. dispatch_loop now b (Some t0) e = Some (Inr (b, e'))"
proof -
  obtain ts u where tu: "ancestors a t0 = ts @ [u]" using ancestors_snoc by blast
  from bubble_to[OF tu _ assms(2), of b now] assms(1) tu
  obtain e' where e': "is_key k e'" "dispatch_loop now b (Some t0) e = dispatch_loop now b (Some u) e'"
    by auto
  have u: "get_parent b u = None" "on_event now b e' u = Inr (b, e')"
    using assms(1) tu ancestors_last[OF tu] e'(1) by auto
  have "dispatch_loop now b (Some u) e' = dispatch_loop now b None (e'\<lparr>ev_last := Some u\<rparr>)"
    using dispatch_step[OF is_key_simps(3)[OF e'(1)] u(2)] by (simp add: u(1))
  then show ?thesis using e'(2) by (simp add: dispatch_end)
qed

section \<open>Opening the popup of a Combo\<close>

lemma find_keep:
  "find P (H @ T) = Some n \<Longrightarrow> \<not> P m \<Longrightarrow> find P (H @ m # T @ N) = Some n"
  by (auto simp: find_app split: option.splits)

lemma find_node_push_ctrl:
  assumes "find_node a (CtrlId n) = Some x"
  shows "find_node (with_popup a L) (CtrlId n) = Some x"
proof -
  let ?P = "\<lambda>nd. ident_of nd = CtrlId n"
  let ?H = "map NLayer (layers a)"
  let ?T = "concat (map (\<lambda>l. nodes_of (NCtrl (root l))) (layers a))"
  have "find ?P (?H @ ?T) = Some x"
    using assms by (simp add: find_node_nodes nodes_of_app)
  from find_keep[OF this, of "NLayer L" "nodes_of (NCtrl (root L))"]
  show ?thesis by (simp add: find_node_nodes nodes_of_app with_popup_def)
qed

lemma find_node_idents: "find_node a t = Some n \<Longrightarrow> t \<in> idents a"
  using find_node_skeleton_None[of t a] by auto

lemma Layer_init_popup:
  "Layer_init lid (Popup p x y (SelectList s sl) cb cap) = popup_layer lid p x y s sl cb cap"
  by (simp add: Layer_init_def focus_first_eq popup_layer_def
        controls_of_rec[of "Popup p x y (SelectList s sl) cb cap"] controls_of_rec[of "SelectList s sl"])

lemma push_layer_popup:
  "push_layer a (Popup p x y (SelectList s sl) cb cap)
     = with_popup a (popup_layer (new_id [NApp a, NCtrl (Popup p x y (SelectList s sl) cb cap)]) p x y s sl cb cap)"
  by (simp add: push_layer_def with_popup_def Layer_init_popup)

lemma get_parent_popup_old:
  assumes "fresh3 a lid p s" "t \<in> idents a"
  shows "get_parent (with_popup a (popup_layer lid p x y s sl cb cap)) t = get_parent a t"
  unfolding with_popup_def
  using assms
  by (intro get_parent_push_old)
     (auto simp: fresh3_def popup_layer_def ctrl_skeleton_rec[of "Popup p x y (SelectList s sl) cb cap"]
                 ctrl_skeleton_rec[of "SelectList s sl"])

lemma fresh3_new:
  assumes "CtrlId p \<notin> idents a" "CtrlId s \<notin> idents a" "p \<noteq> s"
  shows "fresh3 a (new_id [NApp a, NCtrl c]) p s"
  using assms new_id_fresh2[of "LayerId (new_id [NApp a, NCtrl c])" a c]
  by (auto simp: fresh3_def)

lemma fresh_new_ctrl: "CtrlId (new_id [NApp a]) \<notin> idents a" "CtrlId (Suc (new_id [NApp a])) \<notin> idents a"
  using new_id_fresh[of "CtrlId (new_id [NApp a])" a] new_id_fresh[of "CtrlId (Suc (new_id [NApp a]))" a]
  by auto

fun plain_node :: "node \<Rightarrow> bool" where
  "plain_node (NApp a) = True"
| "plain_node (NLayer l) = True"
| "plain_node (NCtrl c) =
     (case c of Panel _ _ \<Rightarrow> True | Labeled _ _ _ \<Rightarrow> True | Composite _ _ _ \<Rightarrow> True | _ \<Rightarrow> False)"

definition plain :: "app \<Rightarrow> ident \<Rightarrow> bool" where
  "plain a t = (case find_node a t of None \<Rightarrow> False | Some n \<Rightarrow> plain_node n)"

lemma plain_enter:
  assumes pl: "plain a t" and same: "\<And>n. t = CtrlId n \<Longrightarrow> find_node b t = find_node a t"
    and ke: "is_key k e" and k: "k \<in> {KEY_ENTER, ALT_ENTER}"
  shows "on_event now b e t = Inr (b, e)"
proof (cases t)
  case AppId
  have "key e = Some k" using ke by (simp add: is_key_def)
  then show ?thesis using k unfolding AppId
    by (auto simp add: on_event_def App_on_event_def key_defs)
next
  case (LayerId l)
  then show ?thesis by (simp add: on_event_def)
next
  case (CtrlId n)
  from pl obtain nd where nd: "find_node a t = Some nd" "plain_node nd"
    by (auto simp: plain_def split: option.splits)
  from find_node_Some[OF nd(1)] CtrlId obtain ctrl where c: "nd = NCtrl ctrl"
    by (cases nd) auto
  have fb: "find_node b (CtrlId n) = Some (NCtrl ctrl)"
    using same[OF CtrlId] nd(1) c CtrlId by simp
  have "key e = Some k" using ke by (simp add: is_key_def)
  then have "control_on_event now b e ctrl = Inr (b, e)"
    using nd(2) k unfolding c
    by (cases ctrl) (auto simp: Panel_on_event_def Composite_on_event_def key_defs)
  then show ?thesis by (simp add: on_event_def CtrlId fb)
qed

lemma combo_open:
  assumes fc: "find_node a (CtrlId c) = Some (NCtrl (Combo c choices i (Some (rx, ry))))"
    and ne: "layers a \<noteq> []" and foc: "focused (last (layers a)) = c"
    and pl: "list_all (plain a) (tl (ancestors a (CtrlId c)))"
    and k: "k \<in> {KEY_ENTER, ALT_ENTER}"
  shows "key_press now a k =
           Some (Inr (push_layer a (Popup (Suc (new_id [NApp a])) (max 0 (rx - 2)) (max 0 (ry - 1))
                        (SelectList (new_id [NApp a]) (SelectList_init choices i 30 10))
                        (Combo_on_popup_close c) [])))"
proof -
  define n where "n = new_id [NApp a]"
  define popup where "popup = Popup (Suc n) (max 0 (rx - 2)) (max 0 (ry - 1))
                        (SelectList n (SelectList_init choices i 30 10)) (Combo_on_popup_close c) []"
  define lid where "lid = new_id [NApp a, NCtrl popup]"
  define L where "L = popup_layer lid (Suc n) (max 0 (rx - 2)) (max 0 (ry - 1)) n
                        (SelectList_init choices i 30 10) (Combo_on_popup_close c) []"
  define b where "b = with_popup a L"
  have pb: "push_layer a popup = b"
    by (simp add: popup_def push_layer_popup b_def L_def lid_def)
  have fr: "fresh3 a lid (Suc n) n"
    unfolding lid_def n_def by (intro fresh3_new fresh_new_ctrl) simp
  define e0 where "e0 = Event KeyEvent (Some k) (Some (CtrlId c))"
  have k0: "is_key k e0" by (simp add: e0_def is_key_simps)
  have k1: "is_key k (e0\<lparr>ev_last := Some (CtrlId c)\<rparr>)" using k0 by (rule is_key_simps)
  have "is_enter e0" using k by (auto simp: is_enter_def e0_def Event_def)
  then have h1: "on_event now a e0 (CtrlId c) = Inr (b, e0)"
    by (simp add: on_event_def fc Combo_on_event_def Let_def pb[symmetric] popup_def n_def e0_def Event_def)
  have cin: "CtrlId c \<in> idents a" using fc by (rule find_node_idents)
  have gpc: "get_parent b (CtrlId c) = get_parent a (CtrlId c)"
    unfolding b_def L_def by (rule get_parent_popup_old[OF fr cin])
  have d1: "dispatch_loop now a (Some (CtrlId c)) e0
              = dispatch_loop now b (get_parent a (CtrlId c)) (e0\<lparr>ev_last := Some (CtrlId c)\<rparr>)"
    using dispatch_step[OF is_key_simps(3)[OF k0] h1] by (simp add: gpc)
  have "\<exists>e. dispatch_loop now a (Some (CtrlId c)) e0 = Some (Inr (b, e))"
  proof (cases "get_parent a (CtrlId c)")
    case None
    then show ?thesis unfolding d1 by (simp add: dispatch_end)
  next
    case (Some q)
    have anc: "tl (ancestors a (CtrlId c)) = ancestors a q"
      by (subst ancestors.simps) (simp add: Some)
    have "\<forall>t \<in> set (ancestors a q).
             get_parent b t = get_parent a t \<and> (\<forall>e. is_key k e \<longrightarrow> on_event now b e t = Inr (b, e))"
    proof (intro ballI conjI allI impI)
      fix t assume t: "t \<in> set (ancestors a q)"
      then have p: "plain a t" using pl unfolding anc by (simp add: list_all_iff)
      then have tin: "t \<in> idents a" by (auto simp: plain_def split: option.splits dest: find_node_idents)
      show "get_parent b t = get_parent a t"
        unfolding b_def L_def by (rule get_parent_popup_old[OF fr tin])
      fix e assume ke: "is_key k e"
      show "on_event now b e t = Inr (b, e)"
      proof (rule plain_enter[OF p _ ke k])
        fix m assume "t = CtrlId m"
        then show "find_node b t = find_node a t"
          using p find_node_push_ctrl[of a m _ L]
          by (auto simp: plain_def b_def split: option.splits)
      qed
    qed
    from bubble[OF this k1] show ?thesis unfolding d1 Some by simp
  qed
  then obtain e where "dispatch_loop now a (Some (CtrlId c)) e0 = Some (Inr (b, e))" ..
  then show ?thesis
    unfolding key_press_def dispatch_event_def n_def[symmetric] popup_def[symmetric] pb
    by (simp add: active_layer_def ne foc e0_def[symmetric]) (simp add: e0_def Event_def)
qed

section \<open>Handlers keep identities apart\<close>

lemma idents_controls:
  "idents a = insert AppId ((\<lambda>l. LayerId (layer_id l)) ` set (layers a)
                             \<union> (\<lambda>c. CtrlId (ctrl_id c)) ` set (all_controls a))"
  by (simp add: idents_nodes nodes_app_set image_Un image_image)

lemma well_identified_cong: "same_trees a b \<Longrightarrow> well_identified a \<Longrightarrow> well_identified b"
proof -
  assume s: "same_trees a b" and w: "well_identified a"
  have "map (\<lambda>l. controls_of (root l)) (layers a) = map (\<lambda>l. controls_of (root l)) (layers b)"
    using map_layers_cong[of "layers a" "layers b" "\<lambda>i r. controls_of r"] s by (simp add: same_trees_def)
  then have "all_controls a = all_controls b" by (simp add: all_controls_def)
  then show ?thesis using s w by (simp add: well_identified_def same_trees_def)
qed

lemma same_trees_refl: "same_trees a a" by (simp add: same_trees_def)

lemma same_trees_trans: "same_trees a b \<Longrightarrow> same_trees b c \<Longrightarrow> same_trees a c"
  by (simp add: same_trees_def)

lemma set_controls_of:
  "set (controls_of c) = insert c (\<Union>ch \<in> set (children c). set (controls_of ch))"
proof -
  have "NCtrl ` set (controls_of c) = set (nodes_of (NCtrl c))" by (simp add: nodes_of_ctrl)
  also have "\<dots> = insert (NCtrl c) (\<Union>ch \<in> set (children c). NCtrl ` set (controls_of ch))"
    by (subst set_nodes_of) (simp add: nodes_of_ctrl)
  also have "\<dots> = NCtrl ` insert c (\<Union>ch \<in> set (children c). set (controls_of ch))"
    by (simp add: image_UN)
  finally have "NCtrl ` set (controls_of c)
                  = NCtrl ` insert c (\<Union>ch \<in> set (children c). set (controls_of ch))" .
  moreover have "inj NCtrl" by (simp add: inj_on_def)
  ultimately show ?thesis by (simp only: inj_image_eq_iff)
qed

lemma controls_of_size: "d \<in> set (controls_of c) \<Longrightarrow> size d \<le> size c"
proof (induction c rule: control_induct)
  case (control c)
  from control.prems consider "d = c" | ch where "ch \<in> set (children c)" "d \<in> set (controls_of ch)"
    by (subst (asm) set_controls_of) auto
  then show ?case
  proof cases
    case 1
    then show ?thesis by simp
  next
    case 2
    then show ?thesis using control.IH[OF 2] children_smaller[OF 2(1)] by simp
  qed
qed

lemma update_none: "\<forall>x \<in> set (controls_of d). ctrl_id x \<noteq> n \<Longrightarrow> update n f d = d"
proof (induction d rule: control_induct)
  case (control d)
  have self: "ctrl_id d \<noteq> n" using control.prems controls_of_self[of d] by blast
  have "update n f ch = ch" if "ch \<in> set (children d)" for ch
    using control.IH[OF that] control.prems controls_of_child[OF that] by blast
  then show ?case using self by (cases d) (auto simp: map_idI)
qed

definition consistent :: "control list \<Rightarrow> bool" where
  "consistent cs = (\<forall>c \<in> set cs. \<forall>d \<in> set cs. ctrl_id c = ctrl_id d \<longrightarrow> c = d)"

lemma consistent_subset: "consistent cs \<Longrightarrow> set ds \<subseteq> set cs \<Longrightarrow> consistent ds"
  unfolding consistent_def by blast

lemma controls_of_update:
  assumes f: "keeps_shape f"
  shows "consistent (controls_of r) \<Longrightarrow> controls_of (update n f r) = map (update n f) (controls_of r)"
proof (induction r rule: control_induct)
  case (control r)
  have sub: "set (controls_of ch) \<subseteq> set (controls_of r)" if "ch \<in> set (children r)" for ch
    using controls_of_child[OF that] .
  show ?case
  proof (cases "ctrl_id r = n")
    case True
    have fx: "update n f d = d" if d: "d \<in> set (controls_of ch)" and ch: "ch \<in> set (children r)" for d ch
    proof (rule update_none, intro ballI)
      fix x assume x: "x \<in> set (controls_of d)"
      then have xch: "x \<in> set (controls_of ch)" using controls_of_trans[OF d] by blast
      then have xr: "x \<in> set (controls_of r)" using sub[OF ch] by blast
      have "size x < size r" using controls_of_size[OF xch] children_smaller[OF ch] by simp
      then have "x \<noteq> r" by auto
      then show "ctrl_id x \<noteq> n"
        using control.prems xr controls_of_self[of r] True unfolding consistent_def by blast
    qed
    have ch_fix: "map (update n f) (children r) = children r"
      by (rule map_idI) (use fx controls_of_self in blast)
    have tl_fix: "map (update n f) (tl (controls_of ch)) = tl (controls_of ch)"
      if "ch \<in> set (children r)" for ch
    proof (rule map_idI)
      fix x assume "x \<in> set (tl (controls_of ch))"
      then have "x \<in> set (controls_of ch)" by (cases "controls_of ch") auto
      then show "update n f x = x" using fx[OF _ that] by blast
    qed
    have "controls_of (update n f r)
            = update n f r # children r @ concat (map (\<lambda>ch. tl (controls_of ch)) (children r))"
      by (subst controls_of_rec) (simp add: update_shape[OF f] True)
    also have "\<dots> = map (update n f) (controls_of r)"
      by (subst (2) controls_of_rec) (simp add: ch_fix map_concat comp_def tl_fix cong: map_cong)
    finally show ?thesis .
  next
    case False
    have ih: "controls_of (update n f ch) = map (update n f) (controls_of ch)"
      if "ch \<in> set (children r)" for ch
      using control.IH[OF that consistent_subset[OF control.prems sub[OF that]]] .
    have "controls_of (update n f r)
            = update n f r # map (update n f) (children r)
              @ concat (map (\<lambda>ch. tl (controls_of (update n f ch))) (children r))"
      by (subst controls_of_rec) (simp add: update_shape[OF f] False comp_def)
    also have "concat (map (\<lambda>ch. tl (controls_of (update n f ch))) (children r))
             = concat (map (\<lambda>ch. map (update n f) (tl (controls_of ch))) (children r))"
      using ih by (simp add: map_tl cong: map_cong)
    finally show ?thesis
      by (subst (2) controls_of_rec) (simp add: map_concat comp_def)
  qed
qed

lemma well_identified_consistent: "well_identified a \<Longrightarrow> consistent (all_controls a)"
  by (simp add: well_identified_def consistent_def)

lemma layer_controls_subset: "l \<in> set (layers a) \<Longrightarrow> set (controls_of (root l)) \<subseteq> set (all_controls a)"
  by (auto simp: all_controls_def)

lemma all_controls_update:
  assumes "keeps_shape f" "well_identified a"
  shows "all_controls (update_app n f a) = map (update n f) (all_controls a)"
proof -
  have "controls_of (update n f (root l)) = map (update n f) (controls_of (root l))"
    if "l \<in> set (layers a)" for l
    using controls_of_update[OF assms(1)]
          consistent_subset[OF well_identified_consistent[OF assms(2)] layer_controls_subset[OF that]]
    by blast
  then show ?thesis
    by (simp add: all_controls_def update_app_def comp_def map_concat cong: map_cong)
qed

lemma well_identified_update:
  assumes f: "keeps_shape f" and w: "well_identified a"
  shows "well_identified (update_app n f a)"
proof -
  have ids: "map layer_id (layers (update_app n f a)) = map layer_id (layers a)"
    by (simp add: update_app_def comp_def)
  have "c' = d'" if "c' \<in> set (all_controls (update_app n f a))" "d' \<in> set (all_controls (update_app n f a))"
    "ctrl_id c' = ctrl_id d'" for c' d'
  proof -
    from that(1,2) obtain c d where cd: "c \<in> set (all_controls a)" "d \<in> set (all_controls a)"
      "c' = update n f c" "d' = update n f d"
      unfolding all_controls_update[OF f w] by auto
    then have "ctrl_id c = ctrl_id d" using that(3) by (simp add: update_shape[OF f])
    then have "c = d" using w cd(1,2) by (simp add: well_identified_def)
    then show ?thesis using cd by simp
  qed
  then show ?thesis using w unfolding well_identified_def ids by blast
qed

lemma well_identified_pop: "well_identified a \<Longrightarrow> pop_layer a = Inr a' \<Longrightarrow> well_identified a'"
proof -
  assume w: "well_identified a" and p: "pop_layer a = Inr a'"
  then have l: "layers a' = butlast (layers a)" by (auto simp: pop_layer_def split: if_splits)
  have "set (all_controls a') \<subseteq> set (all_controls a)"
    by (auto simp: all_controls_def l dest: in_set_butlastD)
  moreover have "distinct (map layer_id (layers a'))"
    using w by (simp add: well_identified_def l map_butlast distinct_butlast)
  ultimately show ?thesis using w unfolding well_identified_def by blast
qed

lemma well_identified_exit: "well_identified (a\<lparr>exit := b\<rparr>) = well_identified a"
  by (simp add: well_identified_def all_controls_def)

lemma focus_first_keeps: "root (focus_first l) = root l" "layer_id (focus_first l) = layer_id l"
  "root (focus_last l) = root l" "layer_id (focus_last l) = layer_id l"
  by (simp_all add: focus_first_eq focus_last_eq split: option.splits)

lemma set_active_same_trees:
  assumes "set_active_layer a f = Inr a'" "\<And>l. root (f l) = root l" "\<And>l. layer_id (f l) = layer_id l"
  shows "same_trees a a'"
proof -
  from assms(1) have ne: "layers a \<noteq> []" and a': "a' = a\<lparr>layers := butlast (layers a) @ [f (last (layers a))]\<rparr>"
    by (auto simp: set_active_layer_def active_layer_def split: if_splits)
  have "map g (butlast (layers a) @ [f (last (layers a))]) = map g (layers a)"
    if "\<And>l. g (f l) = g l" for g :: "layer \<Rightarrow> 'b"
  proof -
    have "map g (butlast (layers a) @ [f (last (layers a))]) = map g (butlast (layers a) @ [last (layers a)])"
      by (simp add: that)
    then show ?thesis using ne by simp
  qed
  from this[of root] this[of layer_id] show ?thesis
    by (simp add: same_trees_def a' assms(2,3))
qed

lemma App_on_event_same_trees:
  assumes "App_on_event a ev = Inr (a', ev')"
  shows "same_trees a a'"
proof -
  define a0 where "a0 = (if key ev \<in> set [Some ascii_ESC] then a\<lparr>exit := True\<rparr> else a)"
  define e0 where "e0 = (if key ev \<in> set [Some ascii_ESC] then stop ev else ev)"
  have a0: "same_trees a a0" by (simp add: a0_def same_trees_def)
  define r1 where "r1 = (if key e0 \<in> set [Some KEY_DOWN, Some ascii_TAB]
                         then set_active_layer a0 focus_first else Inr a0)"
  have unfold: "App_on_event a ev =
      (case r1 of Inl e \<Rightarrow> Inl e
       | Inr s \<Rightarrow> (case (if key e0 \<in> set [Some KEY_UP, Some SHIFT_TAB]
                          then set_active_layer s focus_last else Inr s) of
                     Inl e \<Rightarrow> Inl e | Inr s' \<Rightarrow> Inr (s', e0)))"
    by (cases "key ev \<in> set [Some ascii_ESC]")
       (simp_all only: App_on_event_def a0_def e0_def r1_def Let_def if_True if_False prod.case)
  from assms obtain a1 where r1: "r1 = Inr a1"
    and r2: "(if key e0 \<in> set [Some KEY_UP, Some SHIFT_TAB]
              then set_active_layer a1 focus_last else Inr a1) = Inr a'"
    unfolding unfold by (auto split: sum.splits)
  have a1: "same_trees a0 a1"
    using r1 set_active_same_trees[of a0 focus_first a1]
    by (auto simp: r1_def focus_first_keeps same_trees_refl split: if_splits)
  have "same_trees a1 a'"
    using r2 set_active_same_trees[of a1 focus_last a']
    by (auto simp: focus_first_keeps same_trees_refl split: if_splits)
  then show ?thesis using a0 a1 same_trees_trans by blast
qed

lemma navigate_same_trees:
  "navigate a ev self cs bk i = Inr (a', ev') \<Longrightarrow> same_trees a a'"
proof (induction a ev self cs bk i rule: navigate.induct)
  case (1 a ev self controls bk i)
  define nxt where "nxt = i + (if bk then - 1 else 1)"
  note step = navigate_step[OF nxt_def, of a ev self controls]
  show ?case
  proof (cases "0 \<le> i \<and> i < int (length controls) \<and> propagating ev")
    case False
    have "navigate a ev self controls bk i = Inr (a, ev)"
      by (simp only: step False if_False simp_thms)
    then show ?thesis using 1(3) by (simp add: same_trees_refl)
  next
    case go: True
    show ?thesis
    proof (cases "0 \<le> nxt \<and> nxt < int (length controls)")
      case False
      have "navigate a ev self controls bk i = navigate a ev self controls bk nxt"
        by (simp only: step go False if_True if_False simp_thms)
      then have "navigate a ev self controls bk nxt = Inr (a', ev')"
        using 1(3) by simp
      from 1(2)[OF go nxt_def False this] show ?thesis .
    next
      case inside: True
      have s2: "navigate a ev self controls bk i =
          (case layer_of a (CtrlId self) of
             Some (LayerId l) \<Rightarrow>
               navigate (fst (focus_in_layer a l (controls ! nat nxt)))
                        (if snd (focus_in_layer a l (controls ! nat nxt)) then stop ev else ev)
                        self controls bk nxt
           | _ \<Rightarrow> Inl AttributeError)"
        by (simp only: step go inside if_True simp_thms)
      from 1(3) obtain l where l: "layer_of a (CtrlId self) = Some (LayerId l)"
        unfolding s2 by (auto split: option.splits ident.splits)
      obtain a1 ok where f: "focus_in_layer a l (controls ! nat nxt) = (a1, ok)"
        by (cases "focus_in_layer a l (controls ! nat nxt)")
      have nav: "navigate a1 (if ok then stop ev else ev) self controls bk nxt = Inr (a', ev')"
        using 1(3) unfolding s2 by (simp add: l f)
      have st: "same_trees a a1" using focus_in_layer_same_trees[of a l "controls ! nat nxt"] by (simp add: f)
      from 1(1)[OF go nxt_def inside l refl f[symmetric] nav] have "same_trees a1 a'" .
      then show ?thesis using st same_trees_trans by blast
    qed
  qed
qed

lemma navigate_from_same_trees:
  "navigate_from a ev n cs bk = Inr (a', ev') \<Longrightarrow> same_trees a a'"
  using navigate_same_trees[of a ev n cs bk _ a' ev']
  by (auto simp: navigate_from_def same_trees_refl split: option.splits)

lemma Layer_init_keeps: "root (Layer_init i r) = r" "layer_id (Layer_init i r) = i"
  by (simp_all add: Layer_init_eq)

lemma all_controls_push:
  "all_controls (push_layer a c) = all_controls a @ controls_of c"
  by (simp add: all_controls_def push_layer_def Layer_init_keeps)

lemma layer_ids_push:
  "map layer_id (layers (push_layer a c)) = map layer_id (layers a) @ [new_id [NApp a, NCtrl c]]"
  by (simp add: push_layer_def Layer_init_keeps)

lemma well_identified_push_popup:
  assumes w: "well_identified a" and leaf: "children inner = []" and n: "ctrl_id inner = new_id [NApp a]"
  shows "well_identified (push_layer a (Popup (Suc (new_id [NApp a])) x y inner cb cap))"
proof -
  define popup where "popup = Popup (Suc (new_id [NApp a])) x y inner cb cap"
  have pid: "ctrl_id popup = Suc (new_id [NApp a])" by (simp add: popup_def)
  have "controls_of inner = [inner]"
    by (subst controls_of_rec) (simp add: leaf)
  moreover have "children popup = [inner]" by (simp add: popup_def)
  ultimately have cs: "controls_of popup = [popup, inner]"
    by (subst controls_of_rec) simp
  have old: "ctrl_id c < new_id [NApp a]" if "c \<in> set (all_controls a)" for c
  proof -
    have "CtrlId (ctrl_id c) \<in> idents a" using that by (simp add: idents_controls)
    from new_id_fresh[OF this] show ?thesis by simp
  qed
  have lid: "new_id [NApp a, NCtrl popup] \<notin> layer_id ` set (layers a)"
  proof
    assume "new_id [NApp a, NCtrl popup] \<in> layer_id ` set (layers a)"
    then obtain l where l: "l \<in> set (layers a)" "layer_id l = new_id [NApp a, NCtrl popup]" by auto
    have "LayerId (layer_id l) \<in> idents a" using l(1) by (simp add: idents_controls)
    from new_id_fresh2[OF this, of popup] l(2) show False by simp
  qed
  have d: "distinct (map layer_id (layers (push_layer a popup)))"
    unfolding layer_ids_push using w lid by (simp add: well_identified_def)
  have mem: "c \<in> set (all_controls a) \<or> c = popup \<or> c = inner"
    if "c \<in> set (all_controls (push_layer a popup))" for c
    using that unfolding all_controls_push cs by auto
  have "c = d" if c: "c \<in> set (all_controls (push_layer a popup))"
    and d: "d \<in> set (all_controls (push_layer a popup))" and eq: "ctrl_id c = ctrl_id d" for c d
  proof -
    from mem[OF c] mem[OF d] show ?thesis
    proof (elim disjE)
      assume "c \<in> set (all_controls a)" "d \<in> set (all_controls a)"
      then show ?thesis using w eq by (simp add: well_identified_def)
    qed (use old[of c] old[of d] eq n pid in auto)
  qed
  then show ?thesis using d unfolding well_identified_def popup_def by blast
qed

lemma on_close_wf: "on_close cb a ok inner = Inr a' \<Longrightarrow> well_identified a \<Longrightarrow> well_identified a'"
  by (cases cb; cases inner)
     (auto split: if_splits intro!: well_identified_update keeps_shape_setters)

lemma Popup_on_event_wf:
  assumes "Popup_on_event a ev inner cb = Inr (a', ev')" "well_identified a"
  shows "well_identified a'"
proof -
  have close: "well_identified b'" if "well_identified b"
    "(case on_close cb b ok inner of Inl e \<Rightarrow> Inl e | Inr x \<Rightarrow> pop_layer x) = Inr b'" for b b' ok
    using that by (auto split: sum.splits dest: on_close_wf well_identified_pop)
  show ?thesis
  proof (cases "ev_type ev = KeyEvent")
    case False
    then show ?thesis using assms by (simp add: Popup_on_event_def)
  next
    case True
    from assms(1) obtain a1 where a1:
      "(if key ev = Some ascii_ESC
        then (case on_close cb a False inner of Inl e \<Rightarrow> Inl e | Inr x \<Rightarrow> pop_layer x) else Inr a) = Inr a1"
      and a2: "(if is_enter ev
        then (case on_close cb a1 True inner of Inl e \<Rightarrow> Inl e | Inr x \<Rightarrow> pop_layer x) else Inr a1) = Inr a'"
      unfolding Popup_on_event_def by (simp add: True split: sum.splits)
    have "well_identified a1" using a1 close[OF assms(2)] assms(2) by (auto split: if_splits)
    then show ?thesis using a2 close by (auto split: if_splits)
  qed
qed

lemma control_on_event_wf:
  assumes "well_identified a" "control_on_event now a ev c = Inr (a', ev')"
  shows "well_identified a'"
proof (cases c)
  case (Panel n cs)
  then show ?thesis
    using assms navigate_from_same_trees[of a ev n cs _ a' ev'] well_identified_cong[of a a']
    by (auto simp: Panel_on_event_def Let_def split: if_splits)
next
  case (Composite n cs m)
  then show ?thesis
    using assms navigate_from_same_trees[of a ev n cs _ a' ev'] well_identified_cong[of a a']
    by (auto simp: Composite_on_event_def Let_def split: if_splits)
next
  case (Popup n x y inner cb cap)
  then show ?thesis using assms Popup_on_event_wf by auto
next
  case (Combo n choices i r)
  then show ?thesis
    using assms
    by (auto simp: Combo_on_event_def Let_def split: if_splits option.splits
             intro!: well_identified_push_popup)
next
  case (DateCombo n v r)
  then show ?thesis
    using assms
    by (auto simp: DateCombo_on_event_def Let_def split: if_splits option.splits
             intro!: well_identified_push_popup)
next
  case (SelectList n s)
  then show ?thesis
    using assms by (auto split: prod.splits intro!: well_identified_update keeps_shape_setters)
next
  case (SelectDate n v)
  then show ?thesis
    using assms by (auto split: prod.splits sum.splits intro!: well_identified_update keeps_shape_setters)
next
  case (Edit n e)
  then show ?thesis
    using assms by (auto split: prod.splits sum.splits intro!: well_identified_update keeps_shape_setters)
qed (use assms in auto)

lemma on_event_wf:
  assumes "well_identified a" "on_event now a ev t = Inr (a', ev')"
  shows "well_identified a'"
proof (cases t)
  case AppId
  then show ?thesis
    using assms App_on_event_same_trees[of a ev a' ev'] well_identified_cong[of a a']
    by (simp add: on_event_def)
next
  case (LayerId l)
  then show ?thesis using assms by (simp add: on_event_def)
next
  case (CtrlId i)
  with assms(2) obtain c where "control_on_event now a ev c = Inr (a', ev')"
    by (auto simp: on_event_def split: option.splits node.splits)
  then show ?thesis using control_on_event_wf[OF assms(1)] by simp
qed

section \<open>Dispatched keys keep the invariant\<close>

lemma dispatch_loop_inv:
  "dispatch_loop now a tgt ev = Some r \<Longrightarrow> r = Inr (a', ev') \<Longrightarrow> well_identified a \<Longrightarrow> app_inv a \<Longrightarrow>
     well_identified a' \<and> app_inv a'"
proof (induction arbitrary: a' ev' rule: dispatch_loop.raw_induct[rotated 1, consumes 1])
  case (1 dl now a tgt ev r)
  show ?case
  proof (cases tgt)
    case None
    then show ?thesis using 1 by simp
  next
    case (Some t)
    show ?thesis
    proof (cases "propagating ev")
      case False
      then show ?thesis using 1 Some by simp
    next
      case True
      from 1(2) 1(3) True Some obtain a1 ev1 where h: "on_event now a ev t = Inr (a1, ev1)"
        and d: "dl now a1 (get_parent a1 t) (ev1\<lparr>ev_last := Some t\<rparr>) = Some r"
        by (auto split: sum.splits)
      have "well_identified a1" using on_event_wf[OF 1(4) h] .
      moreover have "app_inv a1" using on_event_inv[OF 1(4) 1(5) h] .
      ultimately show ?thesis using 1(1)[OF d 1(3)] by simp
    qed
  qed
qed

lemma key_press_inv:
  assumes "key_press now a k = Some (Inr a')" "well_identified a" "app_inv a"
  shows "well_identified a' \<and> app_inv a'"
proof -
  have tg: "target (Event KeyEvent (Some k) t) = t" for t by (simp add: Event_def)
  from assms(1) obtain l :: layer and ev' where
    "dispatch_loop now a (Some (CtrlId (focused l))) (Event KeyEvent (Some k) (Some (CtrlId (focused l))))
       = Some (Inr (a', ev'))"
    by (auto simp: key_press_def dispatch_event_def tg split: sum.splits option.splits)
  from dispatch_loop_inv[OF this refl assms(2,3)] show ?thesis .
qed

lemma key_presses_inv:
  "key_presses now a ks = Some (Inr a') \<Longrightarrow> well_identified a \<Longrightarrow> app_inv a \<Longrightarrow>
     well_identified a' \<and> app_inv a'"
proof (induction ks arbitrary: a)
  case Nil
  then show ?case by simp
next
  case (Cons k ks)
  show ?case
  proof (cases "exit a")
    case True
    then show ?thesis using Cons.prems by simp
  next
    case False
    with Cons.prems(1) obtain a1 where k: "key_press now a k = Some (Inr a1)"
      and r: "key_presses now a1 ks = Some (Inr a')"
      by (auto split: option.splits sum.splits)
    from key_press_inv[OF k Cons.prems(2,3)] Cons.IH[OF r] show ?thesis by blast
  qed
qed

section \<open>Escape\<close>


lemma find_node_ctrl:
  "find_node a (CtrlId c) = map_option NCtrl (find (\<lambda>d. ctrl_id d = c) (all_controls a))"
proof -
  have skip: "find (\<lambda>n. ident_of n = CtrlId c) (map NLayer ls @ rest)
                = find (\<lambda>n. ident_of n = CtrlId c) rest" for ls rest
    by (induction ls) auto
  have m: "find (\<lambda>n. ident_of n = CtrlId c) (map NCtrl cs)
             = map_option NCtrl (find (\<lambda>d. ctrl_id d = c) cs)" for cs
    by (induction cs) auto
  have "concat (map (\<lambda>l. nodes_of (NCtrl (root l))) (layers a)) = map NCtrl (all_controls a)"
    by (simp add: all_controls_def nodes_of_ctrl map_concat comp_def)
  then show ?thesis
    by (simp add: find_node_nodes nodes_of_app skip m)
qed



lemma find_node_update:
  assumes f: "keeps_shape f" and w: "well_identified a" and fn: "find_node a (CtrlId c) = Some (NCtrl x)"
  shows "find_node (update_app n f a) (CtrlId c) = Some (NCtrl (update n f x))"
proof -
  have m: "find (\<lambda>d. ctrl_id d = c) (map (update n f) cs)
             = map_option (update n f) (find (\<lambda>d. ctrl_id d = c) cs)" for cs
    by (induction cs) (auto simp: update_shape[OF f])
  from fn have "find (\<lambda>d. ctrl_id d = c) (all_controls a) = Some x"
    by (auto simp: find_node_ctrl)
  then show ?thesis
    by (simp add: find_node_ctrl all_controls_update[OF f w] m)
qed













text \<open>
  Document order in the words of the specification (section 4.4): root first, then
  depth first through the children in order.
\<close>

function document_order :: "control \<Rightarrow> control list" where
  "document_order c = c # concat (map document_order (children c))"
  by pat_completeness auto
termination
  by (relation "measure size") (auto simp: children_smaller)

declare document_order.simps [simp del]

text \<open>
  C4. The claim has Layer construction focus the first focusable control in document
  order. \<^verbatim>\<open>_focus_first\<close> (lines 614-618) takes the first one that \<^verbatim>\<open>object_tree\<close> yields, and
  \<^verbatim>\<open>object_tree\<close> (lines 593-601) yields all the children of a control before any
  grandchild, although it pushes the children reversed as a depth-first walk does. For a
  Panel holding a Panel with the Edit 3 inside, and then the Edit 4, the new Layer focuses
  4; in document order the first focusable control is 3, and \<^verbatim>\<open>focus\<close> called on the same
  root descends to 3.
\<close>

theorem C4_document_order_counterexample:
  "focused (Layer_init 9 (Panel 1 [Panel 2 [Edit 3 (Edit_init ''x'')], Edit 4 (Edit_init ''y'')])) = 4
   \<and> map ctrl_id (filter can_focus
         (document_order (Panel 1 [Panel 2 [Edit 3 (Edit_init ''x'')], Edit 4 (Edit_init ''y'')]))) = [3, 4]
   \<and> focused (fst (focus \<lparr>layer_id = 9,
                           root = Panel 1 [Panel 2 [Edit 3 (Edit_init ''x'')], Edit 4 (Edit_init ''y'')],
                           focused = 1\<rparr>
                    (Panel 1 [Panel 2 [Edit 3 (Edit_init ''x'')], Edit 4 (Edit_init ''y'')]))) = 3"
  by code_simp

lemma well_identified_App_init: "well_identified (App_init r) = consistent (controls_of r)"
  by (simp add: well_identified_def App_init_def all_controls_def Layer_init_keeps consistent_def)

lemma app_inv_App_init: "app_inv (App_init r)"
  by (simp add: app_inv_def App_init_def layer_inv_Layer_init)

text \<open>
  C4, the rest of the claim. The focused control of a Layer is its root or a focusable
  control under its root. Layer construction establishes this: it focuses the first
  focusable control in the order of \<^verbatim>\<open>object_tree\<close> (a control, then its children, then what
  lies under each child in turn), or leaves the root focused when there is none. A call of
  \<^verbatim>\<open>focus\<close> on a control under the Layer's root keeps it, as do \<^verbatim>\<open>_focus_first\<close> and
  \<^verbatim>\<open>_focus_last\<close>. A new App has it when the controls under its root are told apart by their
  identities, and then it holds after every handler call and after every sequence of
  dispatched keys, together with the identities staying apart.
\<close>

theorem C4_focus_invariant:
  "layer_inv (Layer_init i r)
   \<and> focused (Layer_init i r)
       = (case find can_focus (controls_of r) of None \<Rightarrow> ctrl_id r | Some d \<Rightarrow> ctrl_id d)
   \<and> controls_of r = r # children r @ concat (map (\<lambda>ch. tl (controls_of ch)) (children r))
   \<and> (layer_inv l \<and> c \<in> set (controls_of (root l)) \<longrightarrow> layer_inv (fst (focus l c)))
   \<and> (layer_inv l \<longrightarrow> layer_inv (focus_first l) \<and> layer_inv (focus_last l))
   \<and> app_inv (App_init r)
   \<and> well_identified (App_init r) = consistent (controls_of r)
   \<and> (well_identified a \<and> app_inv a \<and> on_event now a ev t = Inr (a', ev')
        \<longrightarrow> well_identified a' \<and> app_inv a')
   \<and> (well_identified a \<and> app_inv a \<and> key_presses now a ks = Some (Inr a'')
        \<longrightarrow> well_identified a'' \<and> app_inv a'')"
  using layer_inv_Layer_init[of i r] Layer_init_eq[of i r] controls_of_rec[of r]
        layer_inv_focus[of c l] layer_inv_focus_first[of l] layer_inv_focus_last[of l]
        app_inv_App_init[of r] well_identified_App_init[of r]
        on_event_inv[of a now ev t a' ev'] on_event_wf[of a now ev t a' ev']
        key_presses_inv[of now a ks a'']
  by simp

text \<open>A small form: a labeled Edit and a Combo in a Panel.\<close>

definition form :: control where
  "form = Panel 1 [Labeled 2 ''name'' (Edit 3 (Edit_init ''x'')), Combo 4 [''a'', ''b'', ''c''] 0 (Some (5, 5))]"

definition noon :: datetime where
  "noon = \<lparr>dt_ordinal = 738900, dt_micros = 43200000000\<rparr>"

theorem C4_focus_invariant_witness:
  "consistent (controls_of form) \<and> well_identified (App_init form) \<and> app_inv (App_init form)
   \<and> on_event noon (App_init form) ((key_event SHIFT_TAB)\<lparr>ev_last := Some (CtrlId 4)\<rparr>) (CtrlId 1)
      = Inr (\<lparr>exit = False, layers = [\<lparr>layer_id = 5, root = form, focused = 3\<rparr>]\<rparr>,
             stop ((key_event SHIFT_TAB)\<lparr>ev_last := Some (CtrlId 4)\<rparr>))
   \<and> app_inv \<lparr>exit = False, layers = [\<lparr>layer_id = 5, root = form, focused = 3\<rparr>]\<rparr>
   \<and> key_presses noon (App_init form) [KEY_UP, 121, KEY_DOWN]
      = Some (Inr \<lparr>exit = False,
                   layers = [\<lparr>layer_id = 5,
                              root = Panel 1 [Labeled 2 ''name'' (Edit 3 \<lparr>edit_value = ''xy'', edit_cursor = 2\<rparr>),
                                              Combo 4 [''a'', ''b'', ''c''] 0 (Some (5, 5))],
                              focused = 4\<rparr>]\<rparr>)
   \<and> app_inv \<lparr>exit = False,
               layers = [\<lparr>layer_id = 5,
                          root = Panel 1 [Labeled 2 ''name'' (Edit 3 \<lparr>edit_value = ''xy'', edit_cursor = 2\<rparr>),
                                          Combo 4 [''a'', ''b'', ''c''] 0 (Some (5, 5))],
                          focused = 4\<rparr>]\<rparr>
   \<and> focused (Layer_init 5 form) = 4
   \<and> layer_inv (fst (focus (Layer_init 5 form) (Labeled 2 ''name'' (Edit 3 (Edit_init ''x'')))))"
proof -
  define a1 where "a1 = \<lparr>exit = False, layers = [\<lparr>layer_id = 5, root = form, focused = 3\<rparr>]\<rparr>"
  define a2 where "a2 = \<lparr>exit = False,
               layers = [\<lparr>layer_id = 5,
                          root = Panel 1 [Labeled 2 ''name'' (Edit 3 \<lparr>edit_value = ''xy'', edit_cursor = 2\<rparr>),
                                          Combo 4 [''a'', ''b'', ''c''] 0 (Some (5, 5))],
                          focused = 4\<rparr>]\<rparr>"
  have h0: "consistent (controls_of form)" by code_simp
  have h3: "on_event noon (App_init form) ((key_event SHIFT_TAB)\<lparr>ev_last := Some (CtrlId 4)\<rparr>) (CtrlId 1)
      = Inr (a1, stop ((key_event SHIFT_TAB)\<lparr>ev_last := Some (CtrlId 4)\<rparr>))"
    unfolding a1_def by code_simp
  have h4: "layer_inv (Layer_init 5 form)" by code_simp
  have h5: "Labeled 2 ''name'' (Edit 3 (Edit_init ''x'')) \<in> set (controls_of (root (Layer_init 5 form)))"
    by code_simp
  have h6: "focused (Layer_init 5 form) = 4" by code_simp
  have h7: "key_presses noon (App_init form) [KEY_UP, 121, KEY_DOWN] = Some (Inr a2)"
    unfolding a2_def by code_simp
  note t = C4_focus_invariant[of 5 form "Layer_init 5 form" "Labeled 2 ''name'' (Edit 3 (Edit_init ''x''))"
      "App_init form" noon "(key_event SHIFT_TAB)\<lparr>ev_last := Some (CtrlId 4)\<rparr>"
      "CtrlId 1" a1 "stop ((key_event SHIFT_TAB)\<lparr>ev_last := Some (CtrlId 4)\<rparr>)" "[KEY_UP, 121, KEY_DOWN]" a2]
  have w: "well_identified (App_init form)" using t h0 by blast
  have i: "app_inv (App_init form)" using t by blast
  have r1: "app_inv a1" using t w i h3 by blast
  have r2: "app_inv a2" using t w i h7 by blast
  have r3: "layer_inv (fst (focus (Layer_init 5 form) (Labeled 2 ''name'' (Edit 3 (Edit_init ''x'')))))"
    using t h4 h5 by blast
  show ?thesis using h0 w i h3 r1 h7 r2 h6 r3 unfolding a1_def a2_def by blast
qed

text \<open>
  What the hypothesis on identities is for. In the first state two Layers carry one number,
  in the second two different Panels do; neither is a state of the program. Both have the
  invariant, and one Down key breaks it: the focus goes to every Layer with the number, or
  to the Layer that the first Panel with the number lies in.
\<close>

lemma one_number_two_objects:
  "app_inv \<lparr>exit = False,
      layers = [\<lparr>layer_id = 5, root = Panel 1 [Edit 2 (Edit_init ''x''), Edit 3 (Edit_init ''y'')], focused = 2\<rparr>,
                \<lparr>layer_id = 5, root = Text 9 ''t'', focused = 9\<rparr>]\<rparr>
   \<and> on_event noon
        \<lparr>exit = False,
         layers = [\<lparr>layer_id = 5, root = Panel 1 [Edit 2 (Edit_init ''x''), Edit 3 (Edit_init ''y'')], focused = 2\<rparr>,
                   \<lparr>layer_id = 5, root = Text 9 ''t'', focused = 9\<rparr>]\<rparr>
        ((key_event KEY_DOWN)\<lparr>ev_last := Some (CtrlId 2)\<rparr>) (CtrlId 1)
      = Inr (\<lparr>exit = False,
              layers = [\<lparr>layer_id = 5, root = Panel 1 [Edit 2 (Edit_init ''x''), Edit 3 (Edit_init ''y'')], focused = 3\<rparr>,
                        \<lparr>layer_id = 5, root = Text 9 ''t'', focused = 3\<rparr>]\<rparr>,
             stop ((key_event KEY_DOWN)\<lparr>ev_last := Some (CtrlId 2)\<rparr>))
   \<and> \<not> app_inv \<lparr>exit = False,
      layers = [\<lparr>layer_id = 5, root = Panel 1 [Edit 2 (Edit_init ''x''), Edit 3 (Edit_init ''y'')], focused = 3\<rparr>,
                \<lparr>layer_id = 5, root = Text 9 ''t'', focused = 3\<rparr>]\<rparr>
   \<and> app_inv \<lparr>exit = False,
      layers = [\<lparr>layer_id = 1, root = Panel 5 [Edit 4 (Edit_init ''x'')], focused = 4\<rparr>,
                \<lparr>layer_id = 2, root = Panel 5 [Panel 6 [Edit 7 (Edit_init ''y''), Edit 8 (Edit_init ''z'')]],
                 focused = 7\<rparr>]\<rparr>
   \<and> key_press noon
        \<lparr>exit = False,
         layers = [\<lparr>layer_id = 1, root = Panel 5 [Edit 4 (Edit_init ''x'')], focused = 4\<rparr>,
                   \<lparr>layer_id = 2, root = Panel 5 [Panel 6 [Edit 7 (Edit_init ''y''), Edit 8 (Edit_init ''z'')]],
                    focused = 7\<rparr>]\<rparr>
        KEY_DOWN
      = Some (Inr \<lparr>exit = False,
              layers = [\<lparr>layer_id = 1, root = Panel 5 [Edit 4 (Edit_init ''x'')], focused = 8\<rparr>,
                        \<lparr>layer_id = 2, root = Panel 5 [Panel 6 [Edit 7 (Edit_init ''y''), Edit 8 (Edit_init ''z'')]],
                         focused = 7\<rparr>]\<rparr>)
   \<and> \<not> app_inv \<lparr>exit = False,
      layers = [\<lparr>layer_id = 1, root = Panel 5 [Edit 4 (Edit_init ''x'')], focused = 8\<rparr>,
                \<lparr>layer_id = 2, root = Panel 5 [Panel 6 [Edit 7 (Edit_init ''y''), Edit 8 (Edit_init ''z'')]],
                 focused = 7\<rparr>]\<rparr>"
  by code_simp

section \<open>Escape at the App and at a Popup\<close>





section \<open>The popup of a Combo\<close>

text \<open>
  C5. Enter on a Combo that has been painted makes its handler push a new Layer with a
  Popup holding a SelectList, which starts at the Combo's index. In that state every Up
  and Down moves the selection of the SelectList; then Enter closes the Layer and leaves
  the App as it was before the popup, except that the Combo's index is the selection of
  the SelectList, and Escape instead leaves the App as it was before the popup, the index
  unchanged. When the controls above the Combo are Panels, Labeled and Composites, the
  Enter that opens the popup changes nothing else on its way up, so the whole sequence of
  keys from the Combo does the same.
\<close>

theorem C5_combo_popup:
  fixes a :: app and c :: nat and choices :: "string list" and i rx ry :: int
  assumes "\<not> exit a" and "set ks \<subseteq> {KEY_UP, KEY_DOWN}"
    and "e1 \<in> {KEY_ENTER, ALT_ENTER}" and "e2 \<in> {KEY_ENTER, ALT_ENTER}"
  defines "n \<equiv> new_id [NApp a]"
    and "s0 \<equiv> SelectList_init choices i 30 10"
  defines "menu_of \<equiv> \<lambda>s. Popup (Suc n) (max 0 (rx - 2)) (max 0 (ry - 1)) (SelectList n s) (Combo_on_popup_close c) []"
    and "j \<equiv> sl_index (select_list_keys s0 ks)"
  shows "Combo_on_event a (key_event e1) c choices i (Some (rx, ry)) = Inr (push_layer a (menu_of s0), key_event e1)
    \<and> key_presses now (push_layer a (menu_of s0)) ks = Some (Inr (push_layer a (menu_of (select_list_keys s0 ks))))
    \<and> key_presses now (push_layer a (menu_of s0)) (ks @ [e2]) = Some (Inr (update_app c (set_index j) a))
    \<and> key_presses now (push_layer a (menu_of s0)) (ks @ [ascii_ESC]) = Some (Inr a)
    \<and> (find_node a (CtrlId c) = Some (NCtrl (Combo c choices i (Some (rx, ry))))
        \<and> layers a \<noteq> [] \<and> focused (last (layers a)) = c
        \<and> list_all (plain a) (tl (ancestors a (CtrlId c)))
       \<longrightarrow> key_presses now a (e1 # ks @ [e2]) = Some (Inr (update_app c (set_index j) a))
         \<and> key_presses now a (e1 # ks @ [ascii_ESC]) = Some (Inr a))
    \<and> (find_node a (CtrlId c) = Some (NCtrl (Combo c choices i (Some (rx, ry)))) \<and> well_identified a
       \<longrightarrow> find_node (update_app c (set_index j) a) (CtrlId c)
             = Some (NCtrl (Combo c choices j (Some (rx, ry)))))"
proof -
  define lid where "lid = new_id [NApp a, NCtrl (menu_of s0)]"
  define L where "L = (\<lambda>s. popup_layer lid (Suc n) (max 0 (rx - 2)) (max 0 (ry - 1)) n s (Combo_on_popup_close c) [])"
  have lid_eq: "new_id [NApp a, NCtrl (menu_of s)] = lid" for s
    by (simp add: lid_def new_id_def menu_of_def object_tree_def)
  have push: "push_layer a (menu_of s) = with_popup a (L s)" for s
    unfolding L_def lid_eq[of s, symmetric] menu_of_def by (rule push_layer_popup)
  have fr: "fresh3 a lid (Suc n) n"
    unfolding lid_def n_def by (intro fresh3_new fresh_new_ctrl) simp
  have ne: "\<not> exit (with_popup a (L s))" for s using assms(1) by (simp add: popup_active)
  have A: "Combo_on_event a (key_event e1) c choices i (Some (rx, ry)) = Inr (push_layer a (menu_of s0), key_event e1)"
    using assms(3)
    by (auto simp: Combo_on_event_def Let_def is_enter_def key_event_def Event_def menu_of_def n_def s0_def)
  have keys: "key_presses now (with_popup a (L s0)) (ks @ rest)
                = key_presses now (with_popup a (L (select_list_keys s0 ks))) rest" for rest
    unfolding L_def by (rule popup_keys[OF fr assms(1) assms(2)])
  have B0: "key_presses now (push_layer a (menu_of s0)) ks
              = Some (Inr (push_layer a (menu_of (select_list_keys s0 ks))))"
    using keys[of "[]"] by (simp add: push)
  have "key_press now (with_popup a (L (select_list_keys s0 ks))) e2 = Some (Inr (update_app c (set_index j) a))"
    unfolding L_def j_def by (rule popup_enter[OF fr assms(4)])
  then have B1: "key_presses now (push_layer a (menu_of s0)) (ks @ [e2])
              = Some (Inr (update_app c (set_index j) a))"
    unfolding push keys[of "[e2]"] using ne by simp
  have "key_press now (with_popup a (L (select_list_keys s0 ks))) ascii_ESC = Some (Inr a)"
    unfolding L_def by (rule popup_escape[OF fr])
  then have B2: "key_presses now (push_layer a (menu_of s0)) (ks @ [ascii_ESC]) = Some (Inr a)"
    unfolding push keys[of "[ascii_ESC]"] using ne by simp
  have C: "key_presses now a (e1 # ks @ [e2]) = Some (Inr (update_app c (set_index j) a))
         \<and> key_presses now a (e1 # ks @ [ascii_ESC]) = Some (Inr a)"
    if "find_node a (CtrlId c) = Some (NCtrl (Combo c choices i (Some (rx, ry))))"
      "layers a \<noteq> []" "focused (last (layers a)) = c" "list_all (plain a) (tl (ancestors a (CtrlId c)))"
  proof -
    have "key_press now a e1 = Some (Inr (push_layer a (menu_of s0)))"
      unfolding menu_of_def n_def s0_def by (rule combo_open[OF that assms(3)])
    then show ?thesis using assms(1) B1 B2 by simp
  qed
  have D: "find_node (update_app c (set_index j) a) (CtrlId c) = Some (NCtrl (Combo c choices j (Some (rx, ry))))"
    if "find_node a (CtrlId c) = Some (NCtrl (Combo c choices i (Some (rx, ry))))" "well_identified a"
    using find_node_update[OF keeps_shape_setters(4)[of j] that(2) that(1), where n = c] by simp
  show ?thesis using A B0 B1 B2 C D by blast
qed

theorem C5_combo_popup_witness:
  "\<not> exit (App_init form) \<and> set [KEY_DOWN, KEY_DOWN, KEY_UP] \<subseteq> {KEY_UP, KEY_DOWN}
   \<and> KEY_ENTER \<in> {KEY_ENTER, ALT_ENTER} \<and> ALT_ENTER \<in> {KEY_ENTER, ALT_ENTER}
   \<and> find_node (App_init form) (CtrlId 4) = Some (NCtrl (Combo 4 [''a'', ''b'', ''c''] 0 (Some (5, 5))))
   \<and> layers (App_init form) \<noteq> [] \<and> focused (last (layers (App_init form))) = 4
   \<and> list_all (plain (App_init form)) (tl (ancestors (App_init form) (CtrlId 4)))
   \<and> well_identified (App_init form)
   \<and> sl_index (select_list_keys (SelectList_init [''a'', ''b'', ''c''] 0 30 10) [KEY_DOWN, KEY_DOWN, KEY_UP]) = 1
   \<and> key_presses noon (App_init form) (KEY_ENTER # [KEY_DOWN, KEY_DOWN, KEY_UP] @ [ALT_ENTER])
       = Some (Inr (update_app 4 (set_index 1) (App_init form)))
   \<and> key_presses noon (App_init form) (KEY_ENTER # [KEY_DOWN, KEY_DOWN, KEY_UP] @ [ascii_ESC])
       = Some (Inr (App_init form))
   \<and> find_node (update_app 4 (set_index 1) (App_init form)) (CtrlId 4)
       = Some (NCtrl (Combo 4 [''a'', ''b'', ''c''] 1 (Some (5, 5))))"
proof -
  define a where "a = App_init form"
  have h1: "\<not> exit a" unfolding a_def by code_simp
  have h2: "set [KEY_DOWN, KEY_DOWN, KEY_UP] \<subseteq> {KEY_UP, KEY_DOWN}" by simp
  have h3: "KEY_ENTER \<in> {KEY_ENTER, ALT_ENTER}" "ALT_ENTER \<in> {KEY_ENTER, ALT_ENTER}" by simp_all
  have h4: "find_node a (CtrlId 4) = Some (NCtrl (Combo 4 [''a'', ''b'', ''c''] 0 (Some (5, 5))))"
    unfolding a_def by code_simp
  have h5: "layers a \<noteq> []" "focused (last (layers a)) = 4" unfolding a_def by code_simp+
  have h6: "list_all (plain a) (tl (ancestors a (CtrlId 4)))" unfolding a_def by code_simp
  have h7: "well_identified a" unfolding a_def by code_simp
  have h8: "sl_index (select_list_keys (SelectList_init [''a'', ''b'', ''c''] 0 30 10) [KEY_DOWN, KEY_DOWN, KEY_UP]) = 1"
    by code_simp
  note t = C5_combo_popup[OF h1 h2 h3, where c = 4 and choices = "[''a'', ''b'', ''c'']" and i = 0
      and rx = 5 and ry = 5 and now = noon, unfolded h8]
  have r1: "key_presses noon a (KEY_ENTER # [KEY_DOWN, KEY_DOWN, KEY_UP] @ [ALT_ENTER])
              = Some (Inr (update_app 4 (set_index 1) a))"
    and r2: "key_presses noon a (KEY_ENTER # [KEY_DOWN, KEY_DOWN, KEY_UP] @ [ascii_ESC]) = Some (Inr a)"
    using t h4 h5 h6 by blast+
  have r3: "find_node (update_app 4 (set_index 1) a) (CtrlId 4)
              = Some (NCtrl (Combo 4 [''a'', ''b'', ''c''] 1 (Some (5, 5))))"
    using t h4 h7 by blast
  show ?thesis using h1 h2 h3 h4 h5 h6 h7 h8 r1 r2 r3 unfolding a_def by blast
qed

end
